theory Spec2Isabelle
  imports Complex_Main "HOL-Library.AList" "HOL-Library.Sublist" "HOL-Library.Multiset"
begin

section \<open>Data model\<close>

text \<open>
  The messages and annotations of the annotation tool, as the admin UI holds them
  (\<^verbatim>\<open>annotation-admin-ui-copy/src/config/api.ts\<close>, interfaces \<^verbatim>\<open>DataItem\<close> and
  \<^verbatim>\<open>ChatMessage\<close>).  A JavaScript \<^verbatim>\<open>number\<close> that holds an identifier is an \<open>int\<close>; one
  that holds a confidence is a \<open>real\<close>.  An optional string field is a \<open>string option\<close>;
  JavaScript truthiness of a string (\<^verbatim>\<open>s || t\<close>, \<^verbatim>\<open>if (s)\<close>) is written out as
  \<open>s \<noteq> []\<close>.
\<close>

record message =
  id_msg :: int
  turn_id :: string
  user_id :: string
  content :: string
  reply_to_turn :: "string option"
  created_at :: string
  timestamp :: string

text \<open>
  The thread annotations arrive as \<^verbatim>\<open>Record<string, any[]>\<close>: one entry per thread id,
  holding the annotations of that thread.  The code reads only \<^verbatim>\<open>turn_id\<close> (for the
  match), \<^verbatim>\<open>confidence\<close> and \<^verbatim>\<open>notes\<close> of an annotation; the other fields are those of
  the annotation record of the data model.
\<close>

record annotation =
  ann_turn_id :: string
  ann_confidence :: real
  ann_notes :: string
  ann_source :: string
  ann_created_at :: string

text \<open>
  \<^verbatim>\<open>Object.entries(threadAnnotations)\<close> enumerates the entries in the object's own key
  order; the model takes the entries as the list in that order.  While the query has not
  answered, \<^verbatim>\<open>threadAnnotations\<close> is \<^verbatim>\<open>undefined\<close>: \<open>None\<close>.
\<close>

type_synonym thread_annotations = "(string \<times> annotation list) list option"

subsection \<open>\<^verbatim>\<open>Number.prototype.toString\<close> on an integer\<close>

definition digit_char :: "nat \<Rightarrow> char" where
  "digit_char d = ''0123456789'' ! d"

function digits :: "nat \<Rightarrow> string" where
  "digits n = (if n < 10 then [digit_char n] else digits (n div 10) @ [digit_char (n mod 10)])"
  by pat_completeness auto
termination
  by (relation "measure (\<lambda>n. n)") auto

declare digits.simps [simp del]

definition toString :: "int \<Rightarrow> string" where
  "toString i = (if i < 0 then CHR ''-'' # digits (nat (- i)) else digits (nat i))"

section \<open>Thread assembly in \<^verbatim>\<open>ChatView\<close>\<close>

text \<open>\<^verbatim>\<open>message.turn_id || message.id.toString()\<close>, the key of a message in every map.\<close>

definition messageKey :: "message \<Rightarrow> string" where
  "messageKey message = (if turn_id message \<noteq> [] then turn_id message else toString (id_msg message))"

text \<open>
  \<^verbatim>\<open>findAnnotationForMessage\<close>: the thread entries are tried in order, and in each the first
  annotation whose \<^verbatim>\<open>turn_id\<close> is the message's \<^verbatim>\<open>turn_id\<close> or its \<^verbatim>\<open>id\<close> as a string; the
  first hit is returned with the thread id of its entry.  The returned object is
  \<^verbatim>\<open>{ threadId, ...annotation }\<close>; the annotations of the API have no field named
  \<^verbatim>\<open>threadId\<close>, so the thread id is that of the entry: the pair of both.
\<close>

definition annotationMatches :: "message \<Rightarrow> annotation \<Rightarrow> bool" where
  "annotationMatches message a \<longleftrightarrow>
     ann_turn_id a = turn_id message \<or> ann_turn_id a = toString (id_msg message)"

fun findInEntries :: "(string \<times> annotation list) list \<Rightarrow> message \<Rightarrow> (string \<times> annotation) option" where
  "findInEntries [] message = None"
| "findInEntries ((threadId, annotations) # rest) message =
     (case List.find (annotationMatches message) annotations of
        Some annotation \<Rightarrow> Some (threadId, annotation)
      | None \<Rightarrow> findInEntries rest message)"

definition findAnnotationForMessage :: "thread_annotations \<Rightarrow> message \<Rightarrow> (string \<times> annotation) option" where
  "findAnnotationForMessage threadAnnotations message =
     (case threadAnnotations of
        None \<Rightarrow> None
      | Some entries \<Rightarrow> findInEntries entries message)"

text \<open>
  The three maps of the component are JavaScript \<^verbatim>\<open>Map\<close>s, which keep insertion order:
  association lists, \<^verbatim>\<open>set\<close> being \<^const>\<open>AList.update\<close> (replace in place, or append)
  and \<^verbatim>\<open>get\<close> being \<^const>\<open>map_of\<close>.
\<close>

record threads =
  messageThreads :: "(string \<times> message list) list"
  threadAnnotationMap :: "(string \<times> string) list"

text \<open>
  \<^verbatim>\<open>if (!messageThreads.has(t)) messageThreads.set(t, []); messageThreads.get(t)?.push(message)\<close>
  together with \<^verbatim>\<open>threadAnnotationMap.set(key, t)\<close>.
\<close>

definition pushMessage :: "string \<Rightarrow> message \<Rightarrow> (string \<times> message list) list \<Rightarrow> (string \<times> message list) list" where
  "pushMessage threadId message mt =
     AList.map_entry threadId (\<lambda>messages. messages @ [message])
       (if map_of mt threadId = None then AList.update threadId [] mt else mt)"

definition assign :: "string \<Rightarrow> message \<Rightarrow> threads \<Rightarrow> threads" where
  "assign threadId message st =
     \<lparr> messageThreads = pushMessage threadId message (messageThreads st),
       threadAnnotationMap = AList.update (messageKey message) threadId (threadAnnotationMap st) \<rparr>"

text \<open>First pass: the lookup map from key to message (a later message replaces an earlier one
  with the same key).\<close>

definition firstPass :: "message list \<Rightarrow> (string \<times> message) list" where
  "firstPass allMessages = fold (\<lambda>message mm. AList.update (messageKey message) message mm) allMessages []"

text \<open>Second pass: every message with an annotation goes to the thread of that annotation.\<close>

definition secondStep :: "thread_annotations \<Rightarrow> message \<Rightarrow> threads \<Rightarrow> threads" where
  "secondStep threadAnnotations message st =
     (case findAnnotationForMessage threadAnnotations message of
        None \<Rightarrow> st
      | Some (threadId, annotation) \<Rightarrow> assign threadId message st)"

definition secondPass :: "thread_annotations \<Rightarrow> message list \<Rightarrow> threads" where
  "secondPass threadAnnotations allMessages =
     fold (secondStep threadAnnotations) allMessages \<lparr> messageThreads = [], threadAnnotationMap = [] \<rparr>"

text \<open>
  Third pass: a message not yet in the thread map, with a non-empty \<^verbatim>\<open>reply_to_turn\<close> that
  the lookup map knows, joins the thread its parent has in the thread map at that moment
  (if that thread id is a non-empty string).
\<close>

definition thirdStep :: "(string \<times> message) list \<Rightarrow> message \<Rightarrow> threads \<Rightarrow> threads" where
  "thirdStep messageMap message st =
     (if map_of (threadAnnotationMap st) (messageKey message) = None then
        (case reply_to_turn message of
           None \<Rightarrow> st
         | Some r \<Rightarrow>
             if r = [] then st
             else (case map_of messageMap r of
                     None \<Rightarrow> st
                   | Some parentMessage \<Rightarrow>
                       (case map_of (threadAnnotationMap st) (messageKey parentMessage) of
                          None \<Rightarrow> st
                        | Some parentThreadId \<Rightarrow>
                            if parentThreadId = [] then st
                            else assign parentThreadId message st)))
      else st)"

definition thirdPass :: "(string \<times> message) list \<Rightarrow> message list \<Rightarrow> threads \<Rightarrow> threads" where
  "thirdPass messageMap allMessages st = fold (thirdStep messageMap) allMessages st"

text \<open>The thread map after the three passes.\<close>

definition resolveThreads :: "thread_annotations \<Rightarrow> message list \<Rightarrow> threads" where
  "resolveThreads threadAnnotations allMessages =
     thirdPass (firstPass allMessages) allMessages (secondPass threadAnnotations allMessages)"

subsection \<open>\<^verbatim>\<open>Array.prototype.sort\<close> with a comparator\<close>

text \<open>
  The comparator gives a number or \<^verbatim>\<open>NaN\<close> (\<open>None\<close>).  The engine reads it through
  \<^verbatim>\<open>SortCompare\<close>, where \<^verbatim>\<open>NaN\<close> counts as \<open>+0\<close>.
\<close>

definition sortCompare :: "('a \<Rightarrow> 'a \<Rightarrow> int option) \<Rightarrow> 'a \<Rightarrow> 'a \<Rightarrow> int" where
  "sortCompare comparefn x y = (case comparefn x y of None \<Rightarrow> 0 | Some v \<Rightarrow> v)"

text \<open>
  For a consistent comparator every conforming engine gives the same order, the stable one.
  When the comparator is not consistent the standard leaves the order to the engine; the
  model then follows V8 (Chrome, Node.js) on arrays of fewer than 64 elements: the initial
  run is taken as it stands (reversed when strictly descending), and each remaining element
  is put into the sorted part at the place a binary search finds.
\<close>

function binarySearch :: "('a \<Rightarrow> 'a \<Rightarrow> int option) \<Rightarrow> 'a \<Rightarrow> 'a list \<Rightarrow> nat \<Rightarrow> nat \<Rightarrow> nat" where
  "binarySearch comparefn pivot arr left right =
     (if left < right then
        (let mid = left + (right - left) div 2 in
         if sortCompare comparefn pivot (arr ! mid) < 0
         then binarySearch comparefn pivot arr left mid
         else binarySearch comparefn pivot arr (mid + 1) right)
      else left)"
  by pat_completeness auto
termination
  by (relation "measure (\<lambda>(comparefn, pivot, arr, left, right). right - left)") auto

declare binarySearch.simps [simp del]

definition binaryInsert :: "('a \<Rightarrow> 'a \<Rightarrow> int option) \<Rightarrow> 'a list \<Rightarrow> 'a \<Rightarrow> 'a list" where
  "binaryInsert comparefn arr pivot =
     (let left = binarySearch comparefn pivot arr 0 (length arr)
      in take left arr @ pivot # drop left arr)"

fun ascendingRun :: "('a \<Rightarrow> 'a \<Rightarrow> int option) \<Rightarrow> 'a \<Rightarrow> 'a list \<Rightarrow> 'a list \<times> 'a list" where
  "ascendingRun comparefn previous [] = ([], [])"
| "ascendingRun comparefn previous (current # rest) =
     (if sortCompare comparefn current previous < 0 then ([], current # rest)
      else (case ascendingRun comparefn current rest of
              (run, remaining) \<Rightarrow> (current # run, remaining)))"

fun descendingRun :: "('a \<Rightarrow> 'a \<Rightarrow> int option) \<Rightarrow> 'a \<Rightarrow> 'a list \<Rightarrow> 'a list \<times> 'a list" where
  "descendingRun comparefn previous [] = ([], [])"
| "descendingRun comparefn previous (current # rest) =
     (if sortCompare comparefn current previous \<ge> 0 then ([], current # rest)
      else (case descendingRun comparefn current rest of
              (run, remaining) \<Rightarrow> (current # run, remaining)))"

definition arraySort :: "('a \<Rightarrow> 'a \<Rightarrow> int option) \<Rightarrow> 'a list \<Rightarrow> 'a list" where
  "arraySort comparefn items =
     (case items of
        [] \<Rightarrow> []
      | [x] \<Rightarrow> [x]
      | low # next # rest \<Rightarrow>
          if sortCompare comparefn next low < 0
          then (case descendingRun comparefn next rest of
                  (run, remaining) \<Rightarrow>
                    foldl (binaryInsert comparefn) (rev (low # next # run)) remaining)
          else (case ascendingRun comparefn next rest of
                  (run, remaining) \<Rightarrow>
                    foldl (binaryInsert comparefn) (low # next # run) remaining))"

subsection \<open>Sorting the groups and listing the unthreaded messages\<close>

text \<open>
  \<^verbatim>\<open>new Date(a.timestamp || a.created_at).getTime()\<close>: the parsing of a date string is the
  platform's, taken as the parameter \<open>getTime\<close>; it gives the milliseconds since the epoch,
  or \<^verbatim>\<open>NaN\<close> (\<open>None\<close>) for a string that is no date.  The comparator
  \<^verbatim>\<open>(a, b) => aTime - bTime\<close> is \<^verbatim>\<open>NaN\<close> as soon as one of the two times is.
\<close>

definition messageTime :: "(string \<Rightarrow> int option) \<Rightarrow> message \<Rightarrow> int option" where
  "messageTime getTime a = getTime (if timestamp a \<noteq> [] then timestamp a else created_at a)"

definition compareTime :: "(string \<Rightarrow> int option) \<Rightarrow> message \<Rightarrow> message \<Rightarrow> int option" where
  "compareTime getTime a b =
     (case messageTime getTime a of
        None \<Rightarrow> None
      | Some aTime \<Rightarrow>
          (case messageTime getTime b of
             None \<Rightarrow> None
           | Some bTime \<Rightarrow> Some (aTime - bTime)))"

record assembly =
  threadGroups :: "(string \<times> message list) list"
  unthreadedMessages :: "message list"

definition organizeThreads :: "(string \<Rightarrow> int option) \<Rightarrow> thread_annotations \<Rightarrow> message list \<Rightarrow> assembly" where
  "organizeThreads getTime threadAnnotations allMessages =
     (let st = resolveThreads threadAnnotations allMessages
      in \<lparr> threadGroups =
             map (\<lambda>(threadId, messages). (threadId, arraySort (compareTime getTime) messages))
               (messageThreads st),
           unthreadedMessages =
             filter (\<lambda>message. map_of (threadAnnotationMap st) (messageKey message) = None) allMessages \<rparr>)"

text \<open>The thread a message key has after assembly (\<open>None\<close>: unthreaded).\<close>

definition threadOf :: "thread_annotations \<Rightarrow> message list \<Rightarrow> string \<Rightarrow> string option" where
  "threadOf threadAnnotations allMessages k =
     map_of (threadAnnotationMap (resolveThreads threadAnnotations allMessages)) k"

section \<open>Creating an annotation: the two \<^verbatim>\<open>ChatView\<close> variants\<close>

text \<open>
  The annotation form (\<^verbatim>\<open>useForm\<close>) holds these values; \<^verbatim>\<open>form.onSubmit\<close> runs the
  validators and calls the handler only when none of them reports an error.
\<close>

record form_values =
  fv_thread_id :: string
  fv_confidence :: real
  fv_notes :: string
  fv_tag :: string

text \<open>The argument of \<^verbatim>\<open>createAnnotationMutation.mutate\<close>, and that of the API function
  \<^verbatim>\<open>createAnnotation\<close> (which posts its \<^verbatim>\<open>confidence\<close> unchanged).\<close>

record mutation_data =
  md_itemId :: int
  md_thread_id :: string
  md_confidence :: real
  md_notes :: string

record create_annotation_args =
  ca_item_id :: int
  ca_thread_id :: string
  ca_confidence :: real
  ca_notes :: string

datatype submit_outcome = Invalid | NoMessageSelected | Created create_annotation_args

text \<open>The character class of \<^verbatim>\<open>/^[a-zA-Z0-9_-]+$/\<close>.\<close>

definition threadIdChar :: "char \<Rightarrow> bool" where
  "threadIdChar c \<longleftrightarrow>
     c \<in> set ''abcdefghijklmnopqrstuvwxyzABCDEFGHIJKLMNOPQRSTUVWXYZ0123456789_-''"

subsection \<open>\<^verbatim>\<open>annotation-admin-ui-copy/src/pages/ChatView.tsx\<close>\<close>

definition validate_admin :: "form_values \<Rightarrow> bool" where
  "validate_admin values \<longleftrightarrow>
     fv_thread_id values \<noteq> [] \<and> \<not> length (fv_thread_id values) < 1
     \<and> list_all threadIdChar (fv_thread_id values)
     \<and> \<not> (fv_confidence values < 0 \<or> fv_confidence values > 100)
     \<and> fv_tag values \<noteq> []"

definition mutationFn_admin :: "mutation_data \<Rightarrow> create_annotation_args" where
  "mutationFn_admin d =
     \<lparr> ca_item_id = md_itemId d, ca_thread_id = md_thread_id d,
       ca_confidence = md_confidence d / 100, ca_notes = md_notes d \<rparr>"

definition handleCreateAnnotation_admin :: "message option \<Rightarrow> form_values \<Rightarrow> submit_outcome" where
  "handleCreateAnnotation_admin selectedMessage values =
     (if \<not> validate_admin values then Invalid
      else case selectedMessage of
             None \<Rightarrow> NoMessageSelected
           | Some m \<Rightarrow>
               Created (mutationFn_admin
                 \<lparr> md_itemId = id_msg m, md_thread_id = fv_thread_id values,
                   md_confidence = fv_confidence values, md_notes = fv_notes values \<rparr>))"

subsection \<open>The other \<^verbatim>\<open>ChatView\<close> (\<^verbatim>\<open>src/unnamed/part_016\<close>)\<close>

definition validate_variant :: "form_values \<Rightarrow> bool" where
  "validate_variant values \<longleftrightarrow>
     fv_thread_id values \<noteq> []
     \<and> \<not> (fv_confidence values < 0 \<or> fv_confidence values > 100)
     \<and> fv_tag values \<noteq> []"

definition mutationFn_variant :: "mutation_data \<Rightarrow> create_annotation_args" where
  "mutationFn_variant d =
     \<lparr> ca_item_id = md_itemId d, ca_thread_id = md_thread_id d,
       ca_confidence = md_confidence d / 100, ca_notes = md_notes d \<rparr>"

definition handleCreateAnnotation_variant :: "message option \<Rightarrow> form_values \<Rightarrow> submit_outcome" where
  "handleCreateAnnotation_variant selectedMessage values =
     (if \<not> validate_variant values then Invalid
      else case selectedMessage of
             None \<Rightarrow> NoMessageSelected
           | Some m \<Rightarrow>
               Created (mutationFn_variant
                 \<lparr> md_itemId = id_msg m, md_thread_id = fv_thread_id values,
                   md_confidence = fv_confidence values / 100, md_notes = fv_notes values \<rparr>))"

section \<open>Starting an import: \<^verbatim>\<open>ImportPage\<close> and \<^verbatim>\<open>importCSV\<close>\<close>

text \<open>
  A JavaScript object used as a dictionary (\<^verbatim>\<open>Record<string, string>\<close>) is an association
  list with distinct keys, in the object's enumeration order.
\<close>

record csv_preview =
  headers :: "string list"
  rows :: "string list list"
  filename :: string

text \<open>
  \<^verbatim>\<open>createAutomaticMappings\<close>: every header of the first parsed file is compared, in lower
  case and trimmed, with the keys of \<^verbatim>\<open>knownMappings\<close> in their order; the first key that
  equals the header or is contained in it gives the field, stored under the header.
  (\<^verbatim>\<open>toLowerCase\<close> and \<^verbatim>\<open>trim\<close> are modelled on ASCII; \<open>includes_str\<close> is
  \<^verbatim>\<open>String.prototype.includes\<close>.)
\<close>

definition toLowerCase :: "string \<Rightarrow> string" where
  "toLowerCase s =
     map (\<lambda>c. case map_of (zip ''ABCDEFGHIJKLMNOPQRSTUVWXYZ'' ''abcdefghijklmnopqrstuvwxyz'') c of
                  None \<Rightarrow> c
                | Some l \<Rightarrow> l) s"

definition isWhiteSpace :: "char \<Rightarrow> bool" where
  "isWhiteSpace c \<longleftrightarrow> c \<in> set [CHR '' '', CHR 0x09, CHR 0x0A, CHR 0x0B, CHR 0x0C, CHR 0x0D]"

definition trim :: "string \<Rightarrow> string" where
  "trim s = rev (dropWhile isWhiteSpace (rev (dropWhile isWhiteSpace s)))"

fun includes_str :: "string \<Rightarrow> string \<Rightarrow> bool" where
  "includes_str [] key = (key = [])"
| "includes_str (c # cs) key = (prefix key (c # cs) \<or> includes_str cs key)"

definition knownMappings :: "(string \<times> string) list" where
  "knownMappings =
     [(''content'', ''content''), (''text'', ''content''), (''message'', ''content''),
      (''turn_text'', ''content''),
      (''user_id'', ''user_id''), (''user'', ''user_id''), (''username'', ''user_id''),
      (''author'', ''user_id''),
      (''turn_id'', ''turn_id''), (''message_id'', ''turn_id''), (''id'', ''turn_id''),
      (''reply_to'', ''reply_to_turn''), (''reply_to_turn'', ''reply_to_turn''),
      (''parent_id'', ''reply_to_turn''),
      (''timestamp'', ''timestamp''), (''created_at'', ''timestamp''), (''date'', ''timestamp''),
      (''title'', ''title''), (''name'', ''title''), (''heading'', ''title''),
      (''category'', ''category''), (''type'', ''category''), (''class'', ''category''),
      (''source'', ''source''), (''origin'', ''source''), (''from'', ''source'')]"

definition createAutomaticMappings :: "csv_preview \<Rightarrow> (string \<times> string) list" where
  "createAutomaticMappings preview =
     fold (\<lambda>header autoMappings.
             let lowerHeader = trim (toLowerCase header) in
             case List.find (\<lambda>(key, value). lowerHeader = key \<or> includes_str lowerHeader key)
                    knownMappings of
               None \<Rightarrow> autoMappings
             | Some (key, value) \<Rightarrow> AList.update header value autoMappings)
       (headers preview) []"

record column_mapping =
  cm_content :: "string option"
  cm_type :: "string option"
  cm_metadata :: "(string \<times> string) list"

record import_config =
  project_id :: int
  container_name :: string
  import_type :: string
  column_mapping :: column_mapping

text \<open>\<^verbatim>\<open>importCSV\<close>: the configuration it posts with the file to \<^verbatim>\<open>/import/import\<close>.  The
  answer is the server's.\<close>

definition importCSV :: "int \<Rightarrow> string \<Rightarrow> (string \<times> string) list \<Rightarrow> import_config" where
  "importCSV projectId containerName columnMapping =
     \<lparr> project_id = projectId,
       container_name = containerName,
       import_type = ''generic'',
       column_mapping =
         \<lparr> cm_content = map_of columnMapping ''content'',
           cm_type = map_of columnMapping ''type'',
           cm_metadata =
             filter (\<lambda>(fieldName, columnName). fieldName \<noteq> ''content'' \<and> fieldName \<noteq> ''type'')
               columnMapping \<rparr> \<rparr>"

text \<open>\<^verbatim>\<open>file.name.replace('.csv', '')\<close>: the first occurrence of the pattern is removed.\<close>

fun removeFirst :: "string \<Rightarrow> string \<Rightarrow> string" where
  "removeFirst pat [] = []"
| "removeFirst pat (c # cs) =
     (if prefix pat (c # cs) then drop (length pat) (c # cs) else c # removeFirst pat cs)"

datatype import_outcome = FormInvalid | Notification string | TypeError | Posted import_config

text \<open>
  \<^verbatim>\<open>importNextFile\<close> reads \<^verbatim>\<open>files[currentFileIndex]\<close> (its \<^verbatim>\<open>.name\<close> throws when the index
  is out of range) and the \<^verbatim>\<open>mappings\<close> of the render it was created in.
\<close>

definition importNextFile :: "int \<Rightarrow> string list \<Rightarrow> nat \<Rightarrow> (string \<times> string) list \<Rightarrow> import_outcome" where
  "importNextFile projectId files currentFileIndex mappings =
     (if currentFileIndex < length files
      then Posted (importCSV projectId (removeFirst ''.csv'' (files ! currentFileIndex)) mappings)
      else TypeError)"

text \<open>
  \<^verbatim>\<open>importAllFiles\<close>.  The form validator requires a project (\<open>None\<close>: none chosen;
  \<open>Some n\<close>: the chosen project, whose id \<^verbatim>\<open>parseInt\<close> reads back).  The files are given by
  their names.  \<^verbatim>\<open>setMappings\<close> changes the state of the next render, so the
  \<^verbatim>\<open>importNextFile\<close> called in the same handler still sees the old \<^verbatim>\<open>mappings\<close>.
\<close>

definition lacksContent :: "(string \<times> string) list \<Rightarrow> bool" where
  "lacksContent mappings \<longleftrightarrow>
     ''content'' \<notin> set (map snd mappings)
     \<and> (case map_of mappings ''content'' of None \<Rightarrow> True | Some c \<Rightarrow> c = [])"

definition importAllFiles ::
  "int option \<Rightarrow> string list \<Rightarrow> csv_preview list \<Rightarrow> nat \<Rightarrow> (string \<times> string) list \<Rightarrow> import_outcome" where
  \<open>importAllFiles projectId files csvPreviews currentFileIndex mappings =
     (case projectId of
        None \<Rightarrow> FormInvalid
      | Some pid \<Rightarrow>
          if length files = 0 \<or> length csvPreviews = 0
          then Notification ''Please select CSV file(s) first''
          else if lacksContent mappings \<and> ''turn_text'' \<notin> set (headers (hd csvPreviews))
          then Notification ''You must map a column to the "content" field''
          else importNextFile pid files currentFileIndex mappings)\<close>


section \<open>Views of the state used in the proofs\<close>

text \<open>The thread id the third pass finds for a message through its parent, given the
  lookup map and the current content \<open>T\<close> of the thread map.\<close>

definition parentThreadId :: "(string \<times> message) list \<Rightarrow> (string \<Rightarrow> string option) \<Rightarrow> message \<Rightarrow> string option" where
  "parentThreadId messageMap T message =
     (case reply_to_turn message of
        None \<Rightarrow> None
      | Some r \<Rightarrow>
          if r = [] then None
          else (case map_of messageMap r of
                  None \<Rightarrow> None
                | Some parentMessage \<Rightarrow>
                    (case T (messageKey parentMessage) of
                       None \<Rightarrow> None
                     | Some t \<Rightarrow> if t = [] then None else Some t)))"

text \<open>The messages of a thread group (none when the group does not exist).\<close>

definition groupOf :: "(string \<times> message list) list \<Rightarrow> string \<Rightarrow> message list" where
  "groupOf mt threadId = (case map_of mt threadId of None \<Rightarrow> [] | Some messages \<Rightarrow> messages)"

text \<open>The thread named by a message's own annotation.\<close>

definition annotatedThread :: "thread_annotations \<Rightarrow> message \<Rightarrow> string option" where
  "annotatedThread threadAnnotations message =
     map_option fst (findAnnotationForMessage threadAnnotations message)"

text \<open>The time of a message whose date parses (used only for such messages).\<close>

definition parsedTime :: "(string \<Rightarrow> int option) \<Rightarrow> message \<Rightarrow> int" where
  "parsedTime getTime a = (case messageTime getTime a of None \<Rightarrow> 0 | Some t \<Rightarrow> t)"

text \<open>Every reply is listed after its parent: no message of the list replies to itself or
  to a message listed after it.\<close>

fun parentsFirst :: "message list \<Rightarrow> bool" where
  "parentsFirst [] = True"
| "parentsFirst (m # rest) =
     ((case reply_to_turn m of
         None \<Rightarrow> True
       | Some r \<Rightarrow> r \<notin> set (map messageKey (m # rest)))
      \<and> parentsFirst rest)"

section \<open>Scenarios\<close>

text \<open>Concrete turns and annotations on which the theorems below are evaluated.  A turn of the
  scenarios has the given id, turn id, parent and timestamp.\<close>

definition turn :: "int \<Rightarrow> string \<Rightarrow> string option \<Rightarrow> string \<Rightarrow> message" where
  "turn i t r ts =
     \<lparr> id_msg = i, turn_id = t, user_id = ''u'', content = ''hello'',
       reply_to_turn = r, created_at = ts, timestamp = ts \<rparr>"

definition labelled :: "string \<Rightarrow> string \<Rightarrow> string \<Rightarrow> annotation" where
  "labelled t src created =
     \<lparr> ann_turn_id = t, ann_confidence = 1, ann_notes = [], ann_source = src, ann_created_at = created \<rparr>"

text \<open>\<^verbatim>\<open>Date.prototype.getTime\<close> on the dates of the scenarios (milliseconds since the epoch);
  any other string is taken as no date.\<close>

definition scenarioTime :: "string \<Rightarrow> int option" where
  "scenarioTime s =
     map_of
       [(''2024-01-01T00:00:01Z'', 1704067201000), (''2024-01-01T00:00:02Z'', 1704067202000),
        (''2024-01-01T00:00:03Z'', 1704067203000), (''2024-01-01T00:00:04Z'', 1704067204000),
        (''2024-01-01T00:00:05Z'', 1704067205000), (''2024-01-01T00:00:06Z'', 1704067206000),
        (''2024-01-01T00:00:07Z'', 1704067207000)] s"

text \<open>The duplicate annotations on turn t2: the import one of thread X created at 1, the
  manual one of thread Y created at 2.\<close>

definition dup_X :: annotation where
  "dup_X = labelled ''t2'' ''import'' ''1''"

definition dup_Y :: annotation where
  "dup_Y = labelled ''t2'' ''manual'' ''2''"

definition dup_t2 :: message where
  "dup_t2 = turn 2 ''t2'' (Some ''t1'') ''2024-01-01T00:00:02Z''"

text \<open>The annotation form with 50 per cent entered.\<close>

definition form_50 :: form_values where
  "form_50 = \<lparr> fv_thread_id = ''thread1'', fv_confidence = 50, fv_notes = [], fv_tag = ''CHAT'' \<rparr>"

text \<open>The reply chain t1 (root), t2 (replying to t1), t3 (replying to t2), a second reply
  t4 to t1, and the single annotation binding t1 to thread A.\<close>

definition sc_t1 :: message where
  "sc_t1 = turn 1 ''t1'' None ''2024-01-01T00:00:01Z''"

definition sc_t2 :: message where
  "sc_t2 = turn 2 ''t2'' (Some ''t1'') ''2024-01-01T00:00:02Z''"

definition sc_t3 :: message where
  "sc_t3 = turn 3 ''t3'' (Some ''t2'') ''2024-01-01T00:00:03Z''"

definition sc_t4 :: message where
  "sc_t4 = turn 4 ''t4'' (Some ''t1'') ''2024-01-01T00:00:04Z''"

definition anns_A :: thread_annotations where
  "anns_A = Some [(''A'', [labelled ''t1'' ''manual'' ''1''])]"



text \<open>Turn a annotated X; b replying to a and annotated Y; c replying to b; d replying to c.\<close>

definition ov_a :: message where
  "ov_a = turn 1 ''a'' None ''2024-01-01T00:00:01Z''"

definition ov_b :: message where
  "ov_b = turn 2 ''b'' (Some ''a'') ''2024-01-01T00:00:02Z''"

definition ov_c :: message where
  "ov_c = turn 3 ''c'' (Some ''b'') ''2024-01-01T00:00:03Z''"

definition ov_d :: message where
  "ov_d = turn 4 ''d'' (Some ''c'') ''2024-01-01T00:00:04Z''"

definition anns_X :: thread_annotations where
  "anns_X = Some [(''X'', [labelled ''a'' ''manual'' ''1''])]"

definition anns_XY :: thread_annotations where
  "anns_XY = Some [(''X'', [labelled ''a'' ''manual'' ''1'']), (''Y'', [labelled ''b'' ''manual'' ''2''])]"

text \<open>A turn w waiting for its parent p; the parent p replies to g, which is annotated X.\<close>

definition dg_w :: message where
  "dg_w = turn 7 ''w'' (Some ''p'') ''2024-01-01T00:00:07Z''"

definition dg_p :: message where
  "dg_p = turn 6 ''p'' (Some ''g'') ''2024-01-01T00:00:06Z''"

definition dg_g :: message where
  "dg_g = turn 5 ''g'' None ''2024-01-01T00:00:05Z''"

definition anns_g :: thread_annotations where
  "anns_g = Some [(''X'', [labelled ''g'' ''manual'' ''1''])]"

definition anns_p :: thread_annotations where
  "anns_p = Some [(''X'', [labelled ''p'' ''manual'' ''1''])]"

text \<open>A reply r listed before its parent q, both with the same timestamp; q is annotated A.\<close>

definition tie_r :: message where
  "tie_r = turn 1 ''r'' (Some ''q'') ''2024-01-01T00:00:05Z''"

definition tie_q :: message where
  "tie_q = turn 2 ''q'' None ''2024-01-01T00:00:05Z''"

definition anns_tie :: thread_annotations where
  "anns_tie = Some [(''A'', [labelled ''q'' ''manual'' ''1''])]"

text \<open>Two messages with the same turn id t; the annotation names the second by its id.\<close>

definition same_1 :: message where
  "same_1 = turn 1 ''t'' None ''2024-01-01T00:00:01Z''"

definition same_2 :: message where
  "same_2 = turn 2 ''t'' None ''2024-01-01T00:00:02Z''"

definition anns_by_id :: thread_annotations where
  "anns_by_id = Some [(''A'', [labelled ''2'' ''manual'' ''1''])]"


section \<open>Lemmas on the three passes\<close>

lemma find_filter:
  "List.find P xs = (case filter P xs of [] \<Rightarrow> None | x # _ \<Rightarrow> Some x)"
  by (induction xs) simp_all

subsection \<open>The thread map under one assignment\<close>

lemma tam_assign:
  "map_of (threadAnnotationMap (assign t m st)) = (map_of (threadAnnotationMap st))(messageKey m \<mapsto> t)"
  by (simp add: assign_def update_conv')

lemma map_of_pushMessage:
  "map_of (pushMessage t m mt) = (map_of mt)(t \<mapsto> groupOf mt t @ [m])"
  by (auto simp: pushMessage_def groupOf_def map_of_map_entry update_conv' fun_eq_iff split: option.splits)

lemma groupOf_assign:
  "groupOf (messageThreads (assign t m st)) t' =
     (if t' = t then groupOf (messageThreads st) t @ [m] else groupOf (messageThreads st) t')"
  by (simp add: assign_def groupOf_def map_of_pushMessage)

lemma distinct_pushMessage:
  "distinct (map fst mt) \<Longrightarrow> distinct (map fst (pushMessage t m mt))"
  by (simp add: pushMessage_def distinct_map_entry distinct_update)

subsection \<open>First pass\<close>

lemma firstPass_snoc: "firstPass (xs @ [x]) = AList.update (messageKey x) x (firstPass xs)"
  by (simp add: firstPass_def)

lemma firstPass_SomeD:
  "map_of (firstPass xs) r = Some p \<Longrightarrow> p \<in> set xs \<and> messageKey p = r"
  by (induction xs rule: rev_induct)
    (auto simp: firstPass_snoc update_conv' firstPass_def split: if_splits)

lemma firstPass_None: "map_of (firstPass xs) r = None \<longleftrightarrow> r \<notin> messageKey ` set xs"
  by (induction xs rule: rev_induct)
    (auto simp: firstPass_snoc update_conv' firstPass_def split: if_splits)

lemma firstPass_distinct:
  "distinct (map messageKey xs) \<Longrightarrow> p \<in> set xs \<Longrightarrow> map_of (firstPass xs) (messageKey p) = Some p"
proof (induction xs rule: rev_induct)
  case Nil
  then show ?case by simp
next
  case (snoc x xs)
  show ?case
  proof (cases "p = x")
    case True
    then show ?thesis by (simp add: firstPass_snoc update_conv')
  next
    case False
    with snoc.prems have "p \<in> set xs" and "messageKey x \<noteq> messageKey p" by auto
    with snoc show ?thesis by (simp add: firstPass_snoc update_conv')
  qed
qed

subsection \<open>Second pass\<close>

lemma secondPass_snoc: "secondPass anns (xs @ [x]) = secondStep anns x (secondPass anns xs)"
  by (simp add: secondPass_def)

lemma tam_secondStep:
  "map_of (threadAnnotationMap (secondStep anns m st)) k =
     (if messageKey m = k \<and> annotatedThread anns m \<noteq> None then annotatedThread anns m
      else map_of (threadAnnotationMap st) k)"
  by (auto simp: secondStep_def annotatedThread_def tam_assign split: option.splits)

lemma secondPass_other:
  "k \<notin> messageKey ` set xs \<Longrightarrow> map_of (threadAnnotationMap (secondPass anns xs)) k = None"
  by (induction xs rule: rev_induct) (auto simp: secondPass_snoc tam_secondStep secondPass_def)

lemma secondPass_distinct:
  "distinct (map messageKey xs) \<Longrightarrow> m \<in> set xs \<Longrightarrow>
     map_of (threadAnnotationMap (secondPass anns xs)) (messageKey m) = annotatedThread anns m"
proof (induction xs rule: rev_induct)
  case Nil
  then show ?case by simp
next
  case (snoc x xs)
  show ?case
  proof (cases "m = x")
    case True
    with snoc.prems have "messageKey x \<notin> messageKey ` set xs" by auto
    then have "map_of (threadAnnotationMap (secondPass anns xs)) (messageKey x) = None"
      by (rule secondPass_other)
    with True show ?thesis by (simp add: secondPass_snoc tam_secondStep)
  next
    case False
    with snoc.prems have m: "m \<in> set xs" and ne: "messageKey x \<noteq> messageKey m" by auto
    from snoc.prems have "distinct (map messageKey xs)" by simp
    with snoc.IH m have "map_of (threadAnnotationMap (secondPass anns xs)) (messageKey m) = annotatedThread anns m"
      by simp
    with ne show ?thesis by (simp add: secondPass_snoc tam_secondStep)
  qed
qed

lemma groupOf_secondStep:
  "groupOf (messageThreads (secondStep anns m st)) t =
     groupOf (messageThreads st) t @ (if annotatedThread anns m = Some t then [m] else [])"
  by (auto simp: secondStep_def annotatedThread_def groupOf_assign split: option.splits)

lemma groupOf_secondPass:
  "groupOf (messageThreads (secondPass anns xs)) t = filter (\<lambda>m. annotatedThread anns m = Some t) xs"
  by (induction xs rule: rev_induct)
    (simp_all add: secondPass_snoc groupOf_secondStep, simp add: secondPass_def groupOf_def)

subsection \<open>Third pass\<close>

lemma thirdStep_eq:
  "thirdStep mm m st =
     (if map_of (threadAnnotationMap st) (messageKey m) = None
      then (case parentThreadId mm (map_of (threadAnnotationMap st)) m of
              None \<Rightarrow> st
            | Some t \<Rightarrow> assign t m st)
      else st)"
  by (simp add: thirdStep_def parentThreadId_def split: option.splits)

lemma thirdPass_Cons: "thirdPass mm (x # xs) st = thirdPass mm xs (thirdStep mm x st)"
  by (simp add: thirdPass_def)

lemma thirdPass_append: "thirdPass mm (xs @ ys) st = thirdPass mm ys (thirdPass mm xs st)"
  by (simp add: thirdPass_def)

lemma tam_thirdStep:
  "map_of (threadAnnotationMap (thirdStep mm m st)) k =
     (if k = messageKey m \<and> map_of (threadAnnotationMap st) k = None
      then parentThreadId mm (map_of (threadAnnotationMap st)) m
      else map_of (threadAnnotationMap st) k)"
  by (auto simp: thirdStep_eq tam_assign split: option.splits)

lemma thirdPass_mono:
  "map_of (threadAnnotationMap st) k = Some t \<Longrightarrow>
     map_of (threadAnnotationMap (thirdPass mm xs st)) k = Some t"
  by (induction xs arbitrary: st) (simp_all add: thirdPass_Cons tam_thirdStep, simp add: thirdPass_def)

lemma thirdPass_other:
  "k \<notin> messageKey ` set xs \<Longrightarrow>
     map_of (threadAnnotationMap (thirdPass mm xs st)) k = map_of (threadAnnotationMap st) k"
  by (induction xs arbitrary: st) (simp_all add: thirdPass_Cons tam_thirdStep, simp add: thirdPass_def)

lemma groupOf_thirdStep:
  "groupOf (messageThreads (thirdStep mm m st)) t =
     groupOf (messageThreads st) t @
       (if map_of (threadAnnotationMap st) (messageKey m) = None
           \<and> map_of (threadAnnotationMap (thirdStep mm m st)) (messageKey m) = Some t
        then [m] else [])"
  by (auto simp: thirdStep_eq groupOf_assign tam_assign split: option.splits)

lemma groupOf_thirdPass:
  "distinct (map messageKey xs) \<Longrightarrow>
     groupOf (messageThreads (thirdPass mm xs st)) t =
       groupOf (messageThreads st) t @
         filter (\<lambda>m. map_of (threadAnnotationMap st) (messageKey m) = None
                    \<and> map_of (threadAnnotationMap (thirdPass mm xs st)) (messageKey m) = Some t) xs"
proof (induction xs arbitrary: st)
  case Nil
  show ?case by (simp add: thirdPass_def)
next
  case (Cons x xs)
  let ?st' = "thirdStep mm x st"
  from Cons.prems have dist: "distinct (map messageKey xs)"
    and fresh: "messageKey x \<notin> messageKey ` set xs" by auto
  have final_x: "map_of (threadAnnotationMap (thirdPass mm xs ?st')) (messageKey x)
      = map_of (threadAnnotationMap ?st') (messageKey x)"
    using fresh by (rule thirdPass_other)
  have rest: "filter (\<lambda>m. map_of (threadAnnotationMap ?st') (messageKey m) = None
                    \<and> map_of (threadAnnotationMap (thirdPass mm xs ?st')) (messageKey m) = Some t) xs
            = filter (\<lambda>m. map_of (threadAnnotationMap st) (messageKey m) = None
                    \<and> map_of (threadAnnotationMap (thirdPass mm xs ?st')) (messageKey m) = Some t) xs"
  proof (rule filter_cong[OF refl])
    fix m assume "m \<in> set xs"
    with fresh have "messageKey m \<noteq> messageKey x" by (metis imageI)
    then have "map_of (threadAnnotationMap ?st') (messageKey m) = map_of (threadAnnotationMap st) (messageKey m)"
      by (simp add: tam_thirdStep)
    then show "(map_of (threadAnnotationMap ?st') (messageKey m) = None
                    \<and> map_of (threadAnnotationMap (thirdPass mm xs ?st')) (messageKey m) = Some t)
             = (map_of (threadAnnotationMap st) (messageKey m) = None
                    \<and> map_of (threadAnnotationMap (thirdPass mm xs ?st')) (messageKey m) = Some t)"
      by simp
  qed
  show ?case
    using Cons.IH[OF dist, of ?st'] final_x rest
    by (simp add: thirdPass_Cons groupOf_thirdStep)
qed

lemma distinct_groups_assign:
  "distinct (map fst (messageThreads st)) \<Longrightarrow> distinct (map fst (messageThreads (assign t m st)))"
  by (simp add: assign_def distinct_pushMessage)

lemma distinct_groups_secondPass: "distinct (map fst (messageThreads (secondPass anns xs)))"
  by (induction xs rule: rev_induct)
    (auto simp: secondPass_snoc secondStep_def distinct_groups_assign secondPass_def split: option.splits)

lemma distinct_groups_thirdPass:
  "distinct (map fst (messageThreads st)) \<Longrightarrow> distinct (map fst (messageThreads (thirdPass mm xs st)))"
  by (induction xs arbitrary: st)
    (auto simp: thirdPass_Cons thirdStep_eq distinct_groups_assign thirdPass_def split: option.splits)

subsection \<open>The thread of a message after the three passes\<close>

lemma digits_nonempty: "digits n \<noteq> []"
  by (subst digits.simps) simp

lemma messageKey_nonempty: "messageKey m \<noteq> []"
  by (simp add: messageKey_def toString_def digits_nonempty)

lemma threadOf_explicit:
  assumes "distinct (map messageKey xs)" and "m \<in> set xs" and "annotatedThread anns m = Some t"
  shows "threadOf anns xs (messageKey m) = Some t"
proof -
  have "map_of (threadAnnotationMap (secondPass anns xs)) (messageKey m) = Some t"
    using assms by (simp add: secondPass_distinct)
  then show ?thesis
    by (simp add: threadOf_def resolveThreads_def thirdPass_mono)
qed

lemma threadOf_no_message:
  assumes "k \<notin> messageKey ` set xs"
  shows "threadOf anns xs k = None"
  using assms by (simp add: threadOf_def resolveThreads_def thirdPass_other secondPass_other)

lemma prefix_map:
  assumes "distinct (map messageKey (pre @ suf))"
  shows "map_of (threadAnnotationMap (thirdPass mm pre st)) k =
           (if k \<in> messageKey ` set pre
            then map_of (threadAnnotationMap (thirdPass mm (pre @ suf) st)) k
            else map_of (threadAnnotationMap st) k)"
proof (cases "k \<in> messageKey ` set pre")
  case True
  with assms have "k \<notin> messageKey ` set suf" by auto
  then have "map_of (threadAnnotationMap (thirdPass mm suf (thirdPass mm pre st))) k
      = map_of (threadAnnotationMap (thirdPass mm pre st)) k"
    by (rule thirdPass_other)
  with True show ?thesis by (simp add: thirdPass_append)
next
  case False
  then show ?thesis by (simp add: thirdPass_other)
qed

lemma parentThreadId_cong:
  assumes "\<And>r p. reply_to_turn m = Some r \<Longrightarrow> map_of mm r = Some p \<Longrightarrow> T (messageKey p) = T' (messageKey p)"
    and "map_of mm = map_of mm'"
  shows "parentThreadId mm T m = parentThreadId mm' T' m"
  using assms by (auto simp: parentThreadId_def split: option.splits)

text \<open>The value a message gets: its own annotation's thread, or else what its parent has in
  the thread map when the third pass reaches the message.\<close>

lemma threadOf_at:
  assumes dist: "distinct (map messageKey xs)" and xs: "xs = pre @ m # post"
  shows "threadOf anns xs (messageKey m) =
     (case annotatedThread anns m of
        Some t \<Rightarrow> Some t
      | None \<Rightarrow> parentThreadId (firstPass xs)
                 (map_of (threadAnnotationMap (thirdPass (firstPass xs) pre (secondPass anns xs)))) m)"
proof (cases "annotatedThread anns m")
  case (Some t)
  with dist xs show ?thesis by (simp add: threadOf_explicit)
next
  case None
  let ?mm = "firstPass xs"
  let ?s2 = "secondPass anns xs"
  let ?sp = "thirdPass ?mm pre ?s2"
  from dist xs have k_pre: "messageKey m \<notin> messageKey ` set pre"
    and k_post: "messageKey m \<notin> messageKey ` set post" by auto
  have "map_of (threadAnnotationMap ?s2) (messageKey m) = None"
    using dist xs None by (simp add: secondPass_distinct)
  with k_pre have before: "map_of (threadAnnotationMap ?sp) (messageKey m) = None"
    by (simp add: thirdPass_other)
  have "threadOf anns xs (messageKey m)
      = map_of (threadAnnotationMap (thirdPass ?mm post (thirdStep ?mm m ?sp))) (messageKey m)"
    by (simp add: threadOf_def resolveThreads_def xs thirdPass_append thirdPass_Cons)
  also have "\<dots> = map_of (threadAnnotationMap (thirdStep ?mm m ?sp)) (messageKey m)"
    using k_post by (rule thirdPass_other)
  also have "\<dots> = parentThreadId ?mm (map_of (threadAnnotationMap ?sp)) m"
    using before by (simp add: tam_thirdStep)
  finally show ?thesis using None by simp
qed

lemma direct_reply_inherits:
  assumes dist: "distinct (map messageKey xs)"
    and c: "c \<in> set xs" and p: "p \<in> set xs"
    and reply: "reply_to_turn c = Some (messageKey p)"
    and c_none: "annotatedThread anns c = None"
    and p_some: "annotatedThread anns p = Some t" and t: "t \<noteq> []"
  shows "threadOf anns xs (messageKey c) = Some t"
proof -
  from c obtain pre post where xs: "xs = pre @ c # post" by (auto dest: split_list)
  let ?sp = "thirdPass (firstPass xs) pre (secondPass anns xs)"
  have "map_of (threadAnnotationMap (secondPass anns xs)) (messageKey p) = Some t"
    using dist p p_some by (simp add: secondPass_distinct)
  then have parent: "map_of (threadAnnotationMap ?sp) (messageKey p) = Some t"
    by (rule thirdPass_mono)
  have look: "map_of (firstPass xs) (messageKey p) = Some p"
    using dist p by (rule firstPass_distinct)
  have "parentThreadId (firstPass xs) (map_of (threadAnnotationMap ?sp)) c = Some t"
    using reply look parent t by (simp add: parentThreadId_def messageKey_nonempty)
  with threadOf_at[OF dist xs, of anns] c_none show ?thesis by simp
qed

lemma dangling_unresolved:
  assumes dist: "distinct (map messageKey xs)"
    and m: "m \<in> set xs" and m_none: "annotatedThread anns m = None"
    and reply: "reply_to_turn m = Some r" and dangling: "r \<notin> messageKey ` set xs"
  shows "threadOf anns xs (messageKey m) = None"
proof -
  from m obtain pre post where xs: "xs = pre @ m # post" by (auto dest: split_list)
  have "map_of (firstPass xs) r = None" using dangling by (simp add: firstPass_None)
  then have "parentThreadId (firstPass xs) T m = None" for T
    using reply by (simp add: parentThreadId_def)
  with threadOf_at[OF dist xs, of anns] m_none show ?thesis by simp
qed

subsection \<open>Lists with every reply after its parent\<close>

lemma parentsFirst_at:
  "parentsFirst (pre @ m # post) \<Longrightarrow> reply_to_turn m = Some r \<Longrightarrow> r \<notin> messageKey ` set (m # post)"
  by (induction pre) auto

text \<open>In such a list the thread of a message is that of its own annotation, or else the
  final thread of its parent.\<close>

lemma threadOf_parentsFirst:
  assumes dist: "distinct (map messageKey xs)" and pf: "parentsFirst xs" and m: "m \<in> set xs"
  shows "threadOf anns xs (messageKey m) =
     (case annotatedThread anns m of
        Some t \<Rightarrow> Some t
      | None \<Rightarrow> parentThreadId (firstPass xs) (threadOf anns xs) m)"
proof -
  from m obtain pre post where xs: "xs = pre @ m # post" by (auto dest: split_list)
  let ?s2 = "secondPass anns xs"
  let ?sp = "thirdPass (firstPass xs) pre ?s2"
  have "parentThreadId (firstPass xs) (map_of (threadAnnotationMap ?sp)) m
      = parentThreadId (firstPass xs) (threadOf anns xs) m"
  proof (rule parentThreadId_cong)
    fix r p assume r: "reply_to_turn m = Some r" and look: "map_of (firstPass xs) r = Some p"
    from look have p: "p \<in> set xs" and key: "messageKey p = r" by (auto dest: firstPass_SomeD)
    from pf r have "r \<notin> messageKey ` set (m # post)" unfolding xs by (rule parentsFirst_at)
    with p key have "messageKey p \<in> messageKey ` set pre" unfolding xs by auto
    moreover have "distinct (map messageKey (pre @ m # post))" using dist xs by simp
    ultimately have "map_of (threadAnnotationMap ?sp) (messageKey p)
        = map_of (threadAnnotationMap (thirdPass (firstPass xs) (pre @ m # post) ?s2)) (messageKey p)"
      by (simp add: prefix_map[of pre "m # post"])
    then show "map_of (threadAnnotationMap ?sp) (messageKey p) = threadOf anns xs (messageKey p)"
      by (simp add: threadOf_def resolveThreads_def xs)
  qed simp
  with threadOf_at[OF dist xs, of anns] show ?thesis by (simp split: option.split)
qed

lemma firstPass_same:
  assumes "distinct (map messageKey xs)" and "distinct (map messageKey ys)" and "set xs = set ys"
  shows "map_of (firstPass xs) = map_of (firstPass ys)"
proof
  fix r
  show "map_of (firstPass xs) r = map_of (firstPass ys) r"
  proof (cases "r \<in> messageKey ` set xs")
    case True
    then obtain p where "p \<in> set xs" "r = messageKey p" by auto
    with assms show ?thesis by (simp add: firstPass_distinct)
  next
    case False
    with assms(3) have "map_of (firstPass xs) r = None" "map_of (firstPass ys) r = None"
      by (simp_all add: firstPass_None)
    then show ?thesis by simp
  qed
qed

lemma parentsFirst_agree:
  assumes dx: "distinct (map messageKey xs)" and dy: "distinct (map messageKey ys)"
    and px: "parentsFirst xs" and py: "parentsFirst ys" and same: "set xs = set ys"
    and split: "xs = pre @ suf"
  shows "\<forall>m\<in>set pre. threadOf anns xs (messageKey m) = threadOf anns ys (messageKey m)"
  using split
proof (induction pre arbitrary: suf rule: rev_induct)
  case Nil
  show ?case by simp
next
  case (snoc m pre)
  from snoc.prems have xs: "xs = pre @ m # suf" by simp
  from snoc.IH[OF xs] have IH: "\<forall>p\<in>set pre. threadOf anns xs (messageKey p) = threadOf anns ys (messageKey p)" .
  have mx: "m \<in> set xs" using xs by simp
  then have my: "m \<in> set ys" using same by simp
  have "parentThreadId (firstPass xs) (threadOf anns xs) m = parentThreadId (firstPass ys) (threadOf anns ys) m"
  proof (rule parentThreadId_cong)
    fix r p assume r: "reply_to_turn m = Some r" and look: "map_of (firstPass xs) r = Some p"
    from look have p: "p \<in> set xs" and key: "messageKey p = r" by (auto dest: firstPass_SomeD)
    from px r have "r \<notin> messageKey ` set (m # suf)" unfolding xs by (rule parentsFirst_at)
    with p key have "p \<in> set pre" unfolding xs by auto
    with IH show "threadOf anns xs (messageKey p) = threadOf anns ys (messageKey p)" by simp
  next
    show "map_of (firstPass xs) = map_of (firstPass ys)" using dx dy same by (rule firstPass_same)
  qed
  then have "threadOf anns xs (messageKey m) = threadOf anns ys (messageKey m)"
    by (simp add: threadOf_parentsFirst[OF dx px mx] threadOf_parentsFirst[OF dy py my]
        split: option.split)
  with IH show ?case by simp
qed

subsection \<open>Sets of keys closed under the parent link\<close>



subsection \<open>Unfolding the scenarios\<close>

lemmas scenario_defs = turn_def labelled_def messageKey_def annotatedThread_def
  findAnnotationForMessage_def annotationMatches_def

section \<open>Lemmas on the sort\<close>

subsection \<open>The sort is a permutation\<close>

lemma ascendingRun_split: "ascendingRun c prev xs = (run, remaining) \<Longrightarrow> xs = run @ remaining"
  by (induction xs arbitrary: prev run remaining) (auto split: if_splits prod.splits)

lemma descendingRun_split: "descendingRun c prev xs = (run, remaining) \<Longrightarrow> xs = run @ remaining"
  by (induction xs arbitrary: prev run remaining) (auto split: if_splits prod.splits)

lemma mset_binaryInsert: "mset (binaryInsert c arr p) = add_mset p (mset arr)"
proof -
  have "mset (take l arr) + mset (drop l arr) = mset arr" for l
    by (metis append_take_drop_id mset_append)
  then show ?thesis by (simp add: binaryInsert_def Let_def)
qed

lemma mset_foldl_binaryInsert: "mset (foldl (binaryInsert c) arr xs) = mset arr + mset xs"
  by (induction xs arbitrary: arr) (simp_all add: mset_binaryInsert)

lemma mset_arraySort: "mset (arraySort c xs) = mset xs"
proof (cases xs)
  case Nil
  then show ?thesis by (simp add: arraySort_def)
next
  case (Cons low ys)
  show ?thesis
  proof (cases ys)
    case Nil
    with Cons show ?thesis by (simp add: arraySort_def)
  next
    case (Cons nxt rest)
    obtain r1 m1 where a: "ascendingRun c nxt rest = (r1, m1)" by (cases "ascendingRun c nxt rest")
    obtain r2 m2 where d: "descendingRun c nxt rest = (r2, m2)" by (cases "descendingRun c nxt rest")
    from a have "mset rest = mset r1 + mset m1" by (auto dest: ascendingRun_split)
    moreover from d have "mset rest = mset r2 + mset m2" by (auto dest: descendingRun_split)
    ultimately show ?thesis
      using \<open>xs = low # ys\<close> Cons a d
      by (auto simp: arraySort_def mset_foldl_binaryInsert)
  qed
qed

lemma set_arraySort: "set (arraySort c xs) = set xs"
  by (rule mset_eq_setD[OF mset_arraySort])

lemma distinct_arraySort: "distinct (arraySort c xs) = distinct xs"
  by (rule mset_eq_imp_distinct_iff[OF mset_arraySort])

subsection \<open>With a comparator that is a difference of keys, the sort is the stable one\<close>

lemma binarySearch_spec:
  "(\<And>y. y \<in> set arr \<Longrightarrow> sortCompare c p y = f p - f y) \<Longrightarrow>
         sorted (map f arr) \<Longrightarrow>
         left \<le> right \<Longrightarrow> right \<le> length arr \<Longrightarrow>
         (\<forall>i<left. f (arr ! i) \<le> f p) \<Longrightarrow>
         (\<forall>i. right \<le> i \<and> i < length arr \<longrightarrow> f p < f (arr ! i)) \<Longrightarrow>
         binarySearch c p arr left right \<le> length arr
         \<and> (\<forall>i<binarySearch c p arr left right. f (arr ! i) \<le> f p)
         \<and> (\<forall>i. binarySearch c p arr left right \<le> i \<and> i < length arr \<longrightarrow> f p < f (arr ! i))"
proof (induction c p arr left right rule: binarySearch.induct)
  case (1 c p arr left right)
  note cons = "1.prems"(1) and srt = "1.prems"(2)
  show ?case
  proof (cases "left < right")
    case False
    with "1.prems" show ?thesis by (subst (1 2 3) binarySearch.simps) auto
  next
    case True
    define mid where "mid = left + (right - left) div 2"
    from True have mid: "left \<le> mid" "mid < right" by (auto simp: mid_def)
    with "1.prems" have midlen: "mid < length arr" by simp
    then have cmp: "sortCompare c p (arr ! mid) = f p - f (arr ! mid)" by (intro cons) simp
    have mono: "i \<le> j \<Longrightarrow> j < length arr \<Longrightarrow> f (arr ! i) \<le> f (arr ! j)" for i j
      using srt by (simp add: sorted_iff_nth_mono)
    show ?thesis
    proof (cases "sortCompare c p (arr ! mid) < 0")
      case less: True
      have upper: "\<forall>i. mid \<le> i \<and> i < length arr \<longrightarrow> f p < f (arr ! i)"
      proof (intro allI impI)
        fix i assume "mid \<le> i \<and> i < length arr"
        then have "f (arr ! mid) \<le> f (arr ! i)" by (simp add: mono)
        with less cmp show "f p < f (arr ! i)" by simp
      qed
      have "binarySearch c p arr left mid \<le> length arr
         \<and> (\<forall>i<binarySearch c p arr left mid. f (arr ! i) \<le> f p)
         \<and> (\<forall>i. binarySearch c p arr left mid \<le> i \<and> i < length arr \<longrightarrow> f p < f (arr ! i))"
        using "1.IH"(1)[OF True mid_def less cons srt] mid midlen "1.prems"(5) upper
        by simp
      moreover have "binarySearch c p arr left right = binarySearch c p arr left mid"
        using True less by (subst binarySearch.simps) (simp add: mid_def Let_def)
      ultimately show ?thesis by simp
    next
      case geq: False
      have lower: "\<forall>i<mid + 1. f (arr ! i) \<le> f p"
      proof (intro allI impI)
        fix i assume "i < mid + 1"
        then have "f (arr ! i) \<le> f (arr ! mid)" using midlen by (simp add: mono)
        with geq cmp show "f (arr ! i) \<le> f p" by simp
      qed
      have "binarySearch c p arr (mid + 1) right \<le> length arr
         \<and> (\<forall>i<binarySearch c p arr (mid + 1) right. f (arr ! i) \<le> f p)
         \<and> (\<forall>i. binarySearch c p arr (mid + 1) right \<le> i \<and> i < length arr \<longrightarrow> f p < f (arr ! i))"
        using "1.IH"(2)[OF True mid_def geq cons srt] mid "1.prems"(4,6) lower
        by simp
      moreover have "binarySearch c p arr left right = binarySearch c p arr (mid + 1) right"
        using True geq by (subst binarySearch.simps) (simp add: mid_def Let_def)
      ultimately show ?thesis by simp
    qed
  qed
qed


lemma binaryInsert_stable:
  assumes cons: "\<And>y. y \<in> set arr \<Longrightarrow> sortCompare c p y = f p - f y"
    and srt: "sorted (map f arr)"
  shows "sorted (map f (binaryInsert c arr p))"
    and "filter (\<lambda>x. f x = k) (binaryInsert c arr p)
           = filter (\<lambda>x. f x = k) arr @ (if f p = k then [p] else [])"
proof -
  define l where "l = binarySearch c p arr 0 (length arr)"
  have spec: "l \<le> length arr \<and> (\<forall>i<l. f (arr ! i) \<le> f p)
      \<and> (\<forall>i. l \<le> i \<and> i < length arr \<longrightarrow> f p < f (arr ! i))"
    unfolding l_def by (rule binarySearch_spec[OF cons srt]) simp_all
  have before: "f x \<le> f p" if "x \<in> set (take l arr)" for x
  proof -
    from that obtain i where "i < length (take l arr)" "x = take l arr ! i"
      by (auto simp: in_set_conv_nth)
    with spec show ?thesis by simp
  qed
  have after: "f p < f x" if "x \<in> set (drop l arr)" for x
  proof -
    from that obtain i where "i < length (drop l arr)" "x = drop l arr ! i"
      by (auto simp: in_set_conv_nth)
    with spec show ?thesis by simp
  qed
  have parts: "sorted (map f (take l arr))" "sorted (map f (drop l arr))"
    using srt by (simp_all add: sorted_map sorted_wrt_take sorted_wrt_drop)
  have cross: "f x \<le> f y" if "x \<in> set (take l arr)" "y \<in> set (drop l arr)" for x y
    using before[OF that(1)] after[OF that(2)] by simp
  show "sorted (map f (binaryInsert c arr p))"
    using parts before after cross
    by (auto simp: binaryInsert_def l_def[symmetric] sorted_append less_imp_le)
  have none: "filter (\<lambda>x. f x = f p) (drop l arr) = []"
    using after by (fastforce simp: filter_empty_conv)
  have whole: "filter (\<lambda>x. f x = k) (take l arr) @ filter (\<lambda>x. f x = k) (drop l arr)
      = filter (\<lambda>x. f x = k) arr"
    by (metis append_take_drop_id filter_append)
  show "filter (\<lambda>x. f x = k) (binaryInsert c arr p)
           = filter (\<lambda>x. f x = k) arr @ (if f p = k then [p] else [])"
  proof (cases "f p = k")
    case True
    with none whole show ?thesis by (simp add: binaryInsert_def l_def[symmetric])
  next
    case False
    with whole show ?thesis by (simp add: binaryInsert_def l_def[symmetric])
  qed
qed

lemma set_binaryInsert: "set (binaryInsert c arr p) = insert p (set arr)"
proof -
  have "set (take l arr) \<union> set (drop l arr) = set arr" for l
    by (metis append_take_drop_id set_append)
  then show ?thesis by (auto simp: binaryInsert_def Let_def)
qed

lemma foldl_binaryInsert_stable:
  assumes cons: "\<And>x y. x \<in> set arr \<union> set xs \<Longrightarrow> y \<in> set arr \<union> set xs \<Longrightarrow> sortCompare c x y = f x - f y"
    and srt: "sorted (map f arr)"
  shows "sorted (map f (foldl (binaryInsert c) arr xs))
       \<and> (\<forall>k. filter (\<lambda>x. f x = k) (foldl (binaryInsert c) arr xs)
              = filter (\<lambda>x. f x = k) arr @ filter (\<lambda>x. f x = k) xs)"
  using assms
proof (induction xs arbitrary: arr)
  case Nil
  then show ?case by simp
next
  case (Cons p xs)
  have c1: "\<And>y. y \<in> set arr \<Longrightarrow> sortCompare c p y = f p - f y"
    using Cons.prems(1) by simp
  note ins = binaryInsert_stable[OF c1 Cons.prems(2)]
  have "sorted (map f (foldl (binaryInsert c) (binaryInsert c arr p) xs))
       \<and> (\<forall>k. filter (\<lambda>x. f x = k) (foldl (binaryInsert c) (binaryInsert c arr p) xs)
              = filter (\<lambda>x. f x = k) (binaryInsert c arr p) @ filter (\<lambda>x. f x = k) xs)"
  proof (rule Cons.IH)
    show "sorted (map f (binaryInsert c arr p))" by (rule ins(1))
    fix x y assume "x \<in> set (binaryInsert c arr p) \<union> set xs" "y \<in> set (binaryInsert c arr p) \<union> set xs"
    then show "sortCompare c x y = f x - f y"
      by (intro Cons.prems(1)) (auto simp: set_binaryInsert)
  qed
  then show ?case by (simp add: ins(2))
qed

lemma ascendingRun_sorted:
  assumes "\<And>x y. x \<in> insert prev (set xs) \<Longrightarrow> y \<in> insert prev (set xs) \<Longrightarrow> sortCompare c x y = f x - f y"
    and "ascendingRun c prev xs = (run, remaining)"
  shows "sorted (map f (prev # run))"
  using assms
proof (induction xs arbitrary: prev run remaining)
  case Nil
  then show ?case by simp
next
  case (Cons x xs)
  have cmp: "sortCompare c x prev = f x - f prev" by (rule Cons.prems(1)) simp_all
  show ?case
  proof (cases "sortCompare c x prev < 0")
    case True
    with Cons.prems(2) show ?thesis by simp
  next
    case False
    obtain r m where rm: "ascendingRun c x xs = (r, m)" by (cases "ascendingRun c x xs")
    with False Cons.prems(2) have run: "run = x # r" by simp
    have "sorted (map f (x # r))"
    proof (rule Cons.IH[OF _ rm])
      fix a b assume "a \<in> insert x (set xs)" "b \<in> insert x (set xs)"
      then show "sortCompare c a b = f a - f b" by (intro Cons.prems(1)) auto
    qed
    moreover from False cmp have "f prev \<le> f x" by simp
    ultimately show ?thesis unfolding run by (auto simp: order_trans)
  qed
qed

lemma descendingRun_sorted:
  assumes "\<And>x y. x \<in> insert prev (set xs) \<Longrightarrow> y \<in> insert prev (set xs) \<Longrightarrow> sortCompare c x y = f x - f y"
    and "descendingRun c prev xs = (run, remaining)"
  shows "sorted_wrt (\<lambda>a b. f b < f a) (prev # run)"
  using assms
proof (induction xs arbitrary: prev run remaining)
  case Nil
  then show ?case by simp
next
  case (Cons x xs)
  have cmp: "sortCompare c x prev = f x - f prev" by (rule Cons.prems(1)) simp_all
  show ?case
  proof (cases "sortCompare c x prev \<ge> 0")
    case True
    with Cons.prems(2) show ?thesis by simp
  next
    case False
    obtain r m where rm: "descendingRun c x xs = (r, m)" by (cases "descendingRun c x xs")
    with False Cons.prems(2) have run: "run = x # r" by simp
    have "sorted_wrt (\<lambda>a b. f b < f a) (x # r)"
    proof (rule Cons.IH[OF _ rm])
      fix a b assume "a \<in> insert x (set xs)" "b \<in> insert x (set xs)"
      then show "sortCompare c a b = f a - f b" by (intro Cons.prems(1)) auto
    qed
    moreover from False cmp have "f x < f prev" by simp
    ultimately show ?thesis unfolding run by (auto intro: less_trans)
  qed
qed

lemma descending_rev:
  assumes "sorted_wrt (\<lambda>a b. f b < f a) l"
  shows "sorted (map f (rev l))" and "filter (\<lambda>x. f x = k) (rev l) = filter (\<lambda>x. f x = k) l"
proof -
  from assms show "sorted (map f (rev l))"
    by (induction l) (auto simp: sorted_append less_imp_le)
  from assms show "filter (\<lambda>x. f x = k) (rev l) = filter (\<lambda>x. f x = k) l"
  proof (induction l)
    case Nil
    then show ?case by simp
  next
    case (Cons x xs)
    then have IH: "filter (\<lambda>x. f x = k) (rev xs) = filter (\<lambda>x. f x = k) xs" by simp
    show ?case
    proof (cases "f x = k")
      case True
      with Cons.prems have "filter (\<lambda>y. f y = k) xs = []" by (auto simp: filter_empty_conv)
      with IH True show ?thesis by simp
    next
      case False
      with IH show ?thesis by simp
    qed
  qed
qed

lemma arraySort_stable:
  assumes cons: "\<And>x y. x \<in> set xs \<Longrightarrow> y \<in> set xs \<Longrightarrow> sortCompare c x y = f x - f y"
  shows "arraySort c xs = sort_key f xs"
proof -
  have "sorted (map f (arraySort c xs))
      \<and> (\<forall>k. filter (\<lambda>x. f x = k) (arraySort c xs) = filter (\<lambda>x. f x = k) xs)"
  proof (cases xs)
    case Nil
    then show ?thesis by (simp add: arraySort_def)
  next
    case (Cons low ys)
    show ?thesis
    proof (cases ys)
      case Nil
      with Cons show ?thesis by (simp add: arraySort_def)
    next
      case (Cons nxt rest)
      with \<open>xs = low # ys\<close> have xs: "xs = low # nxt # rest" by simp
      have cmp: "sortCompare c nxt low = f nxt - f low" by (rule cons) (simp_all add: xs)
      show ?thesis
      proof (cases "sortCompare c nxt low < 0")
        case True
        obtain r m where rm: "descendingRun c nxt rest = (r, m)" by (cases "descendingRun c nxt rest")
        then have rest: "rest = r @ m" by (rule descendingRun_split)
        have "sorted_wrt (\<lambda>a b. f b < f a) (nxt # r)"
        proof (rule descendingRun_sorted[OF _ rm])
          fix a b assume "a \<in> insert nxt (set rest)" "b \<in> insert nxt (set rest)"
          then show "sortCompare c a b = f a - f b" by (intro cons) (auto simp: xs)
        qed
        with True cmp have desc: "sorted_wrt (\<lambda>a b. f b < f a) (low # nxt # r)"
          by (auto intro: less_trans)
        note rv = descending_rev[OF desc]
        have "sorted (map f (foldl (binaryInsert c) (rev (low # nxt # r)) m))
           \<and> (\<forall>k. filter (\<lambda>x. f x = k) (foldl (binaryInsert c) (rev (low # nxt # r)) m)
                  = filter (\<lambda>x. f x = k) (rev (low # nxt # r)) @ filter (\<lambda>x. f x = k) m)"
        proof (rule foldl_binaryInsert_stable[OF _ rv(1)])
          fix a b assume "a \<in> set (rev (low # nxt # r)) \<union> set m" "b \<in> set (rev (low # nxt # r)) \<union> set m"
          then show "sortCompare c a b = f a - f b" by (intro cons) (auto simp: xs rest)
        qed
        then show ?thesis
          using True rm by (simp add: arraySort_def xs rv(2) rest del: rev.simps)
      next
        case False
        obtain r m where rm: "ascendingRun c nxt rest = (r, m)" by (cases "ascendingRun c nxt rest")
        then have rest: "rest = r @ m" by (rule ascendingRun_split)
        have "sorted (map f (nxt # r))"
        proof (rule ascendingRun_sorted[OF _ rm])
          fix a b assume "a \<in> insert nxt (set rest)" "b \<in> insert nxt (set rest)"
          then show "sortCompare c a b = f a - f b" by (intro cons) (auto simp: xs)
        qed
        with False cmp have asc: "sorted (map f (low # nxt # r))" by (auto simp: order_trans)
        have "sorted (map f (foldl (binaryInsert c) (low # nxt # r) m))
           \<and> (\<forall>k. filter (\<lambda>x. f x = k) (foldl (binaryInsert c) (low # nxt # r) m)
                  = filter (\<lambda>x. f x = k) (low # nxt # r) @ filter (\<lambda>x. f x = k) m)"
        proof (rule foldl_binaryInsert_stable[OF _ asc])
          fix a b assume "a \<in> set (low # nxt # r) \<union> set m" "b \<in> set (low # nxt # r) \<union> set m"
          then show "sortCompare c a b = f a - f b" by (intro cons) (auto simp: xs rest)
        qed
        then show ?thesis
          using False rm by (simp add: arraySort_def xs rest)
      qed
    qed
  qed
  then have "sort_key f xs = arraySort c xs"
    by (intro properties_for_sort_key mset_arraySort) (simp_all add: eq_commute)
  then show ?thesis by simp
qed

section \<open>Lemmas on the thread groups\<close>

lemma compareTime_parsed:
  assumes "messageTime getTime a \<noteq> None" and "messageTime getTime b \<noteq> None"
  shows "sortCompare (compareTime getTime) a b = parsedTime getTime a - parsedTime getTime b"
  using assms by (auto simp: sortCompare_def compareTime_def parsedTime_def)

lemma groupOf_resolveThreads:
  assumes dist: "distinct (map messageKey xs)"
  shows "groupOf (messageThreads (resolveThreads anns xs)) t =
           filter (\<lambda>m. annotatedThread anns m = Some t) xs
         @ filter (\<lambda>m. annotatedThread anns m = None \<and> threadOf anns xs (messageKey m) = Some t) xs"
proof -
  let ?s2 = "secondPass anns xs"
  have "filter (\<lambda>m. map_of (threadAnnotationMap ?s2) (messageKey m) = None
                  \<and> map_of (threadAnnotationMap (thirdPass (firstPass xs) xs ?s2)) (messageKey m) = Some t) xs
      = filter (\<lambda>m. annotatedThread anns m = None \<and> threadOf anns xs (messageKey m) = Some t) xs"
    by (rule filter_cong[OF refl])
      (simp add: secondPass_distinct[OF dist] threadOf_def resolveThreads_def)
  with groupOf_thirdPass[OF dist, of "firstPass xs" ?s2 t] show ?thesis
    by (simp add: resolveThreads_def groupOf_secondPass)
qed

lemma distinct_groups_resolveThreads: "distinct (map fst (messageThreads (resolveThreads anns xs)))"
  by (simp add: resolveThreads_def distinct_groups_thirdPass distinct_groups_secondPass)

lemma group_member:
  assumes "distinct (map fst mt)" and "(t, g) \<in> set mt"
  shows "groupOf mt t = g"
  using assms by (simp add: groupOf_def)

lemma group_exists:
  assumes "m \<in> set (groupOf mt t)"
  shows "\<exists>g. (t, g) \<in> set mt \<and> m \<in> set g"
proof (cases "map_of mt t")
  case None
  with assms show ?thesis by (simp add: groupOf_def)
next
  case (Some g)
  then have "(t, g) \<in> set mt" by (rule map_of_SomeD)
  with assms Some show ?thesis by (auto simp: groupOf_def)
qed

text \<open>No thread group is empty: a group is created only to receive a message.\<close>

lemma nonempty_assign:
  assumes "\<forall>t g. map_of (messageThreads st) t = Some g \<longrightarrow> g \<noteq> []"
  shows "\<forall>t g. map_of (messageThreads (assign t' m st)) t = Some g \<longrightarrow> g \<noteq> []"
  using assms by (auto simp: assign_def map_of_pushMessage)

lemma nonempty_secondPass:
  "\<forall>t g. map_of (messageThreads (secondPass anns xs)) t = Some g \<longrightarrow> g \<noteq> []"
proof (induction xs rule: rev_induct)
  case Nil
  show ?case by (simp add: secondPass_def)
next
  case (snoc x xs)
  show ?case
  proof (cases "findAnnotationForMessage anns x")
    case None
    with snoc show ?thesis by (simp add: secondPass_snoc secondStep_def)
  next
    case (Some hit)
    obtain t' a where "hit = (t', a)" by (cases hit)
    with Some nonempty_assign[OF snoc, of t' x] show ?thesis
      by (simp add: secondPass_snoc secondStep_def)
  qed
qed

lemma nonempty_thirdPass:
  assumes "\<forall>t g. map_of (messageThreads st) t = Some g \<longrightarrow> g \<noteq> []"
  shows "\<forall>t g. map_of (messageThreads (thirdPass mm xs st)) t = Some g \<longrightarrow> g \<noteq> []"
  using assms
proof (induction xs arbitrary: st)
  case Nil
  then show ?case by (simp add: thirdPass_def)
next
  case (Cons x xs)
  have "\<forall>t g. map_of (messageThreads (thirdStep mm x st)) t = Some g \<longrightarrow> g \<noteq> []"
    using Cons.prems nonempty_assign[OF Cons.prems]
    by (simp add: thirdStep_eq split: option.splits)
  then show ?case using Cons.IH by (simp add: thirdPass_Cons)
qed

lemma nonempty_resolveThreads:
  assumes "(t, g) \<in> set (messageThreads (resolveThreads anns xs))"
  shows "g \<noteq> []"
proof -
  from assms have "map_of (messageThreads (resolveThreads anns xs)) t = Some g"
    using distinct_groups_resolveThreads by simp
  with nonempty_thirdPass[OF nonempty_secondPass] show ?thesis
    by (auto simp: resolveThreads_def)
qed

lemma threadGroups_member:
  "(t, g) \<in> set (threadGroups (organizeThreads getTime anns xs)) \<longleftrightarrow>
     (\<exists>g0. (t, g0) \<in> set (messageThreads (resolveThreads anns xs))
           \<and> g = arraySort (compareTime getTime) g0)"
  by (auto simp: organizeThreads_def Let_def)

lemma threadGroups_keys:
  "map fst (threadGroups (organizeThreads getTime anns xs)) = map fst (messageThreads (resolveThreads anns xs))"
  by (simp add: organizeThreads_def Let_def case_prod_unfold comp_def)

lemma threadGroups_nonempty:
  assumes "(t, g) \<in> set (threadGroups (organizeThreads getTime anns xs))"
  shows "g \<noteq> []"
proof -
  from assms obtain g0 where g0: "(t, g0) \<in> set (messageThreads (resolveThreads anns xs))"
    and g: "g = arraySort (compareTime getTime) g0"
    by (auto simp: threadGroups_member)
  from g0 have "g0 \<noteq> []" by (rule nonempty_resolveThreads)
  then have "set g0 \<noteq> {}" by simp
  then show ?thesis unfolding g by (metis set_arraySort set_empty)
qed

text \<open>Before sorting, a group holds the annotated turns of its thread in list order,
  followed by the turns that joined it in the third pass, in list order.\<close>

lemma threadGroups_presort:
  assumes dist: "distinct (map messageKey xs)"
    and mem: "(t, g) \<in> set (threadGroups (organizeThreads getTime anns xs))"
  shows "g = arraySort (compareTime getTime)
              (filter (\<lambda>m. annotatedThread anns m = Some t) xs
             @ filter (\<lambda>m. annotatedThread anns m = None \<and> threadOf anns xs (messageKey m) = Some t) xs)"
proof -
  from mem obtain g0 where g0: "(t, g0) \<in> set (messageThreads (resolveThreads anns xs))"
    and g: "g = arraySort (compareTime getTime) g0"
    by (auto simp: threadGroups_member)
  from g0 have "groupOf (messageThreads (resolveThreads anns xs)) t = g0"
    by (intro group_member distinct_groups_resolveThreads)
  with g show ?thesis by (simp add: groupOf_resolveThreads[OF dist])
qed

text \<open>When the dates parse, the group is the stable sort by time of that list.\<close>

lemma threadGroups_content:
  assumes dist: "distinct (map messageKey xs)"
    and parse: "\<forall>m\<in>set xs. messageTime getTime m \<noteq> None"
    and mem: "(t, g) \<in> set (threadGroups (organizeThreads getTime anns xs))"
  shows "g = sort_key (parsedTime getTime)
              (filter (\<lambda>m. annotatedThread anns m = Some t) xs
             @ filter (\<lambda>m. annotatedThread anns m = None \<and> threadOf anns xs (messageKey m) = Some t) xs)"
  unfolding threadGroups_presort[OF dist mem]
  by (rule arraySort_stable) (use parse in \<open>auto intro!: compareTime_parsed\<close>)

lemma threadGroups_set:
  assumes dist: "distinct (map messageKey xs)"
    and mem: "(t, g) \<in> set (threadGroups (organizeThreads getTime anns xs))"
  shows "set g = {m \<in> set xs. threadOf anns xs (messageKey m) = Some t}"
proof -
  have "annotatedThread anns m = Some t \<Longrightarrow> threadOf anns xs (messageKey m) = Some t"
    if "m \<in> set xs" for m using dist that by (rule threadOf_explicit)
  moreover have "annotatedThread anns m = Some t \<or> annotatedThread anns m = None"
    if "m \<in> set xs" "threadOf anns xs (messageKey m) = Some t" for m
  proof (cases "annotatedThread anns m")
    case None then show ?thesis by simp
  next
    case (Some t')
    with dist that(1) have "threadOf anns xs (messageKey m) = Some t'" by (rule threadOf_explicit)
    with that(2) Some show ?thesis by simp
  qed
  ultimately show ?thesis
    unfolding threadGroups_presort[OF dist mem] set_arraySort by auto
qed

lemma threadGroups_has_thread:
  assumes dist: "distinct (map messageKey xs)"
    and m: "m \<in> set xs" and t: "threadOf anns xs (messageKey m) = Some t"
  shows "\<exists>g. (t, g) \<in> set (threadGroups (organizeThreads getTime anns xs)) \<and> m \<in> set g"
proof -
  have "m \<in> set (groupOf (messageThreads (resolveThreads anns xs)) t)"
  proof (cases "annotatedThread anns m")
    case None
    with m t show ?thesis by (simp add: groupOf_resolveThreads[OF dist])
  next
    case (Some t')
    with dist m have "threadOf anns xs (messageKey m) = Some t'" by (rule threadOf_explicit)
    with t Some m show ?thesis by (simp add: groupOf_resolveThreads[OF dist])
  qed
  then obtain g0 where "(t, g0) \<in> set (messageThreads (resolveThreads anns xs))" "m \<in> set g0"
    by (auto dest: group_exists)
  then have "(t, arraySort (compareTime getTime) g0) \<in> set (threadGroups (organizeThreads getTime anns xs))
      \<and> m \<in> set (arraySort (compareTime getTime) g0)"
    by (auto simp: threadGroups_member set_arraySort)
  then show ?thesis by blast
qed

lemma unthreaded_eq:
  "unthreadedMessages (organizeThreads getTime anns xs) = filter (\<lambda>m. threadOf anns xs (messageKey m) = None) xs"
  by (simp add: organizeThreads_def Let_def threadOf_def)

section \<open>Lemmas on the automatic mapping\<close>

text \<open>The automatic mapping is stored under the headers of the file: it has an entry named
  content only if a column is named so.\<close>

lemma fold_keys:
  assumes "\<And>h acc. fst ` set (step h acc) \<subseteq> insert h (fst ` set acc)"
  shows "fst ` set (fold step hs acc) \<subseteq> fst ` set acc \<union> set hs"
proof (induction hs arbitrary: acc)
  case Nil
  show ?case by simp
next
  case (Cons h hs)
  have "fst ` set (fold step hs (step h acc)) \<subseteq> fst ` set (step h acc) \<union> set hs"
    by (rule Cons.IH)
  also have "\<dots> \<subseteq> insert h (fst ` set acc) \<union> set hs"
    using assms[of h acc] by blast
  finally show ?case by auto
qed

lemma createAutomaticMappings_keys:
  "fst ` set (createAutomaticMappings p) \<subseteq> set (headers p)"
proof -
  have "fst ` set (createAutomaticMappings p) \<subseteq> fst ` set ([] :: (string \<times> string) list) \<union> set (headers p)"
    unfolding createAutomaticMappings_def
    by (rule fold_keys) (auto simp: Let_def dom_update split: option.splits prod.splits)
  then show ?thesis by simp
qed

lemma automatic_mapping_posts_no_content:
  assumes "''content'' \<notin> set (headers p)"
    and "importAllFiles pid files (p # ps) i (createAutomaticMappings p) = Posted cfg"
  shows "cm_content (column_mapping cfg) = None"
proof -
  from assms(1) createAutomaticMappings_keys[of p]
  have "''content'' \<notin> fst ` set (createAutomaticMappings p)" by blast
  then have "map_of (createAutomaticMappings p) ''content'' = None"
    by (simp add: map_of_eq_None_iff)
  with assms(2) show ?thesis
    by (auto simp: importAllFiles_def importNextFile_def importCSV_def
        split: option.splits if_splits)
qed

section \<open>The annotation used for a message\<close>

text \<open>
  C3 (as the code has it).  The annotation \<^verbatim>\<open>findAnnotationForMessage\<close> returns is the first
  one, in the enumeration order of the thread entries and of the annotations inside an
  entry, whose \<^verbatim>\<open>turn_id\<close> matches the message; nothing is returned exactly when there is
  no match.  The fields \<^verbatim>\<open>created_at\<close>, \<^verbatim>\<open>source\<close> and \<^verbatim>\<open>confidence\<close> play no part.
\<close>

theorem findAnnotationForMessage_first_match:
  "findAnnotationForMessage (Some entries) message =
     (case concat (map (\<lambda>(threadId, annotations).
                          map (Pair threadId) (filter (annotationMatches message) annotations))
                       entries) of
        [] \<Rightarrow> None
      | hit # _ \<Rightarrow> Some hit)"
proof (induction entries)
  case Nil
  show ?case by (simp add: findAnnotationForMessage_def)
next
  case (Cons e entries)
  obtain threadId annotations where e: "e = (threadId, annotations)" by (cases e)
  show ?case
  proof (cases "filter (annotationMatches message) annotations")
    case Nil
    with Cons.IH show ?thesis
      by (simp add: findAnnotationForMessage_def e find_filter)
  next
    case (Cons a as)
    then show ?thesis
      by (simp add: findAnnotationForMessage_def e find_filter)
  qed
qed

text \<open>
  C3 (as the specification states it) fails on its own scenario: with the import
  annotation of thread X created at 1 and the manual annotation of thread Y created at 2,
  both on turn t2, and X enumerated first, the annotation used is that of X, not of Y.
\<close>

theorem winner_is_first_enumerated_counterexample:
  "findAnnotationForMessage (Some [(''X'', [dup_X]), (''Y'', [dup_Y])]) dup_t2 = Some (''X'', dup_X)
   \<and> ann_created_at dup_X = ''1'' \<and> ann_source dup_X = ''import''
   \<and> ann_created_at dup_Y = ''2'' \<and> ann_source dup_Y = ''manual''"
  by (simp add: findAnnotationForMessage_def annotationMatches_def dup_X_def dup_Y_def dup_t2_def
      turn_def labelled_def)

section \<open>The confidence sent when an annotation is created\<close>

text \<open>
  C10.  For the entered confidence 50 (per cent) on the same selected message, the admin
  \<^verbatim>\<open>ChatView\<close> calls \<^verbatim>\<open>createAnnotation\<close> with confidence 1/2, the other \<^verbatim>\<open>ChatView\<close> with
  1/200: its submit handler divides by 100 and its \<^verbatim>\<open>mutationFn\<close> divides by 100 again.
\<close>

theorem confidence_divided_twice:
  "handleCreateAnnotation_admin (Some dup_t2) form_50
     = Created \<lparr> ca_item_id = 2, ca_thread_id = ''thread1'', ca_confidence = 1 / 2, ca_notes = [] \<rparr>
   \<and> handleCreateAnnotation_variant (Some dup_t2) form_50
     = Created \<lparr> ca_item_id = 2, ca_thread_id = ''thread1'', ca_confidence = 1 / 200, ca_notes = [] \<rparr>"
  by (simp add: handleCreateAnnotation_admin_def handleCreateAnnotation_variant_def
      validate_admin_def validate_variant_def mutationFn_admin_def mutationFn_variant_def
      threadIdChar_def form_50_def dup_t2_def turn_def)

section \<open>Order of the turns\<close>

text \<open>
  C1 (as the code has it).  The thread assembly is a function of the annotations and the
  list of turns, so the same snapshot gives the same result.  Two list orders of the same
  turns (with pairwise distinct keys) give every turn the same thread whenever, in both
  orders, every reply is listed after its parent.
\<close>

theorem parents_first_orders_agree:
  assumes "distinct (map messageKey xs)" and "distinct (map messageKey ys)"
    and "parentsFirst xs" and "parentsFirst ys" and "set xs = set ys"
  shows "threadOf anns xs = threadOf anns ys"
proof
  fix k
  show "threadOf anns xs k = threadOf anns ys k"
  proof (cases "k \<in> messageKey ` set xs")
    case True
    then obtain m where "m \<in> set xs" "k = messageKey m" by auto
    with parentsFirst_agree[OF assms, of xs "[]" anns] show ?thesis by simp
  next
    case False
    with assms(5) show ?thesis by (simp add: threadOf_no_message)
  qed
qed

text \<open>The theorem at the turns t1, t2, t3, t4 in the orders t1 t2 t3 t4 and t1 t4 t2 t3.\<close>

theorem parents_first_orders_agree_witness:
  "distinct (map messageKey [sc_t1, sc_t2, sc_t3, sc_t4])
   \<and> distinct (map messageKey [sc_t1, sc_t4, sc_t2, sc_t3])
   \<and> parentsFirst [sc_t1, sc_t2, sc_t3, sc_t4] \<and> parentsFirst [sc_t1, sc_t4, sc_t2, sc_t3]
   \<and> set [sc_t1, sc_t2, sc_t3, sc_t4] = set [sc_t1, sc_t4, sc_t2, sc_t3]
   \<and> threadOf anns_A [sc_t1, sc_t2, sc_t3, sc_t4] = threadOf anns_A [sc_t1, sc_t4, sc_t2, sc_t3]"
proof -
  have d1: "distinct (map messageKey [sc_t1, sc_t2, sc_t3, sc_t4])"
    and d2: "distinct (map messageKey [sc_t1, sc_t4, sc_t2, sc_t3])"
    and p1: "parentsFirst [sc_t1, sc_t2, sc_t3, sc_t4]"
    and p2: "parentsFirst [sc_t1, sc_t4, sc_t2, sc_t3]"
    by (simp_all add: sc_t1_def sc_t2_def sc_t3_def sc_t4_def scenario_defs)
  have s: "set [sc_t1, sc_t2, sc_t3, sc_t4] = set [sc_t1, sc_t4, sc_t2, sc_t3]" by auto
  from parents_first_orders_agree[OF d1 d2 p1 p2 s] d1 d2 p1 p2 s show ?thesis by blast
qed

text \<open>
  C1 (as the specification states it) fails: the third pass reads the parent's thread at
  the moment it visits the reply, so with the same three turns and the same annotation,
  t3 is in thread A when the list is t1, t2, t3 and has no thread when it is t3, t2, t1.
\<close>

theorem order_changes_thread_counterexample:
  "threadOf anns_A [sc_t1, sc_t2, sc_t3] (messageKey sc_t3) = Some ''A''
   \<and> threadOf anns_A [sc_t3, sc_t2, sc_t1] (messageKey sc_t3) = None
   \<and> set [sc_t1, sc_t2, sc_t3] = set [sc_t3, sc_t2, sc_t1]"
  by (rule conjI, code_simp, rule conjI, code_simp, auto)

section \<open>Propagation down a reply chain\<close>

text \<open>
  C2 (as the code has it).  In a working set with pairwise distinct keys that contains t1
  with an annotation of a non-empty thread A, t2 replying to t1 and t3 replying to t2, both
  without annotation, and in which t2 is listed before t3, all three turns are in thread A:
  t1 by its own annotation (second pass), t2 and t3 through their parents (third pass).
\<close>

theorem chain_inherits_when_listed_in_order:
  assumes dist: "distinct (map messageKey xs)"
    and xs: "xs = pre @ t3 # post" and t2: "t2 \<in> set pre" and t1: "t1 \<in> set xs"
    and a1: "annotatedThread anns t1 = Some A" and A: "A \<noteq> []"
    and a2: "annotatedThread anns t2 = None" and a3: "annotatedThread anns t3 = None"
    and r2: "reply_to_turn t2 = Some (messageKey t1)"
    and r3: "reply_to_turn t3 = Some (messageKey t2)"
  shows "threadOf anns xs (messageKey t1) = Some A
       \<and> threadOf anns xs (messageKey t2) = Some A
       \<and> threadOf anns xs (messageKey t3) = Some A"
proof -
  have t2x: "t2 \<in> set xs" using xs t2 by simp
  have one: "threadOf anns xs (messageKey t1) = Some A"
    using dist t1 a1 by (rule threadOf_explicit)
  have two: "threadOf anns xs (messageKey t2) = Some A"
    using dist t2x t1 r2 a2 a1 A by (rule direct_reply_inherits)
  let ?sp = "thirdPass (firstPass xs) pre (secondPass anns xs)"
  have "distinct (map messageKey (pre @ t3 # post))" using dist xs by simp
  then have "map_of (threadAnnotationMap ?sp) (messageKey t2)
      = map_of (threadAnnotationMap (thirdPass (firstPass xs) (pre @ t3 # post) (secondPass anns xs))) (messageKey t2)"
    using t2 by (simp add: prefix_map[of pre "t3 # post"])
  also have "\<dots> = threadOf anns xs (messageKey t2)"
    by (simp add: threadOf_def resolveThreads_def xs)
  finally have parent: "map_of (threadAnnotationMap ?sp) (messageKey t2) = Some A"
    using two by simp
  have look: "map_of (firstPass xs) (messageKey t2) = Some t2"
    using dist t2x by (rule firstPass_distinct)
  have "parentThreadId (firstPass xs) (map_of (threadAnnotationMap ?sp)) t3 = Some A"
    using r3 look parent A by (simp add: parentThreadId_def messageKey_nonempty)
  with threadOf_at[OF dist xs, of anns] a3 have three: "threadOf anns xs (messageKey t3) = Some A"
    by simp
  from one two three show ?thesis by simp
qed

text \<open>The theorem at the scenario listed as t1, t2, t3.\<close>

theorem chain_inherits_when_listed_in_order_witness:
  "distinct (map messageKey [sc_t1, sc_t2, sc_t3])
   \<and> [sc_t1, sc_t2, sc_t3] = [sc_t1, sc_t2] @ sc_t3 # []
   \<and> sc_t2 \<in> set [sc_t1, sc_t2] \<and> sc_t1 \<in> set [sc_t1, sc_t2, sc_t3]
   \<and> annotatedThread anns_A sc_t1 = Some ''A'' \<and> ''A'' \<noteq> []
   \<and> annotatedThread anns_A sc_t2 = None \<and> annotatedThread anns_A sc_t3 = None
   \<and> reply_to_turn sc_t2 = Some (messageKey sc_t1)
   \<and> reply_to_turn sc_t3 = Some (messageKey sc_t2)
   \<and> threadOf anns_A [sc_t1, sc_t2, sc_t3] (messageKey sc_t1) = Some ''A''
   \<and> threadOf anns_A [sc_t1, sc_t2, sc_t3] (messageKey sc_t2) = Some ''A''
   \<and> threadOf anns_A [sc_t1, sc_t2, sc_t3] (messageKey sc_t3) = Some ''A''"
proof -
  have d: "distinct (map messageKey [sc_t1, sc_t2, sc_t3])"
    and x: "[sc_t1, sc_t2, sc_t3] = [sc_t1, sc_t2] @ sc_t3 # []"
    and m2: "sc_t2 \<in> set [sc_t1, sc_t2]" and m1: "sc_t1 \<in> set [sc_t1, sc_t2, sc_t3]"
    and a1: "annotatedThread anns_A sc_t1 = Some ''A''" and A: "''A'' \<noteq> []"
    and a2: "annotatedThread anns_A sc_t2 = None" and a3: "annotatedThread anns_A sc_t3 = None"
    and r2: "reply_to_turn sc_t2 = Some (messageKey sc_t1)"
    and r3: "reply_to_turn sc_t3 = Some (messageKey sc_t2)"
    by code_simp+
  from chain_inherits_when_listed_in_order[OF d x m2 m1 a1 A a2 a3 r2 r3] d x m2 m1 a1 A a2 a3 r2 r3
  show ?thesis by blast
qed

text \<open>
  C2 (as the specification states it) fails when the working set is listed as t3, t2, t1:
  t1 and t2 are in thread A, t3 is left among the unthreaded messages.
\<close>

theorem chain_reversed_counterexample:
  "threadOf anns_A [sc_t3, sc_t2, sc_t1] (messageKey sc_t1) = Some ''A''
   \<and> threadOf anns_A [sc_t3, sc_t2, sc_t1] (messageKey sc_t2) = Some ''A''
   \<and> threadOf anns_A [sc_t3, sc_t2, sc_t1] (messageKey sc_t3) = None
   \<and> sc_t3 \<in> set (unthreadedMessages (organizeThreads scenarioTime anns_A [sc_t3, sc_t2, sc_t1]))"
  by code_simp

section \<open>Reply cycles\<close>




section \<open>An annotation of its own against the parent's thread\<close>

text \<open>
  C5 (as the code has it).  Among turns with pairwise distinct keys, let a have an
  annotation of a non-empty thread X and let b reply to a.  If b has no annotation of its
  own, b is in thread X.  If b has an annotation of thread Y, b is in thread Y, and (Y being
  non-empty) every turn that replies directly to b and has no annotation of its own is in
  thread Y.  This holds in every list order.
\<close>

theorem explicit_label_overrides_for_direct_replies:
  assumes dist: "distinct (map messageKey xs)"
    and a: "a \<in> set xs" and b: "b \<in> set xs"
    and aX: "annotatedThread anns a = Some X" and X: "X \<noteq> []"
    and rb: "reply_to_turn b = Some (messageKey a)"
  shows "(annotatedThread anns b = None \<longrightarrow> threadOf anns xs (messageKey b) = Some X)
       \<and> (\<forall>Y. annotatedThread anns b = Some Y \<longrightarrow>
              threadOf anns xs (messageKey b) = Some Y
              \<and> (Y \<noteq> [] \<longrightarrow>
                   (\<forall>c\<in>set xs. reply_to_turn c = Some (messageKey b) \<and> annotatedThread anns c = None
                        \<longrightarrow> threadOf anns xs (messageKey c) = Some Y)))"
proof (intro conjI impI allI ballI)
  assume "annotatedThread anns b = None"
  with dist b a rb aX X show "threadOf anns xs (messageKey b) = Some X"
    by (intro direct_reply_inherits[where p = a]) auto
next
  fix Y assume "annotatedThread anns b = Some Y"
  with dist b show "threadOf anns xs (messageKey b) = Some Y" by (rule threadOf_explicit)
next
  fix Y c
  assume bY: "annotatedThread anns b = Some Y" and Y: "Y \<noteq> []" and c: "c \<in> set xs"
    and rc: "reply_to_turn c = Some (messageKey b) \<and> annotatedThread anns c = None"
  with dist b show "threadOf anns xs (messageKey c) = Some Y"
    by (intro direct_reply_inherits[where p = b]) auto
qed

text \<open>The theorem at a and b with the annotation of a alone, and at a, b, c with the
  annotations of a and b.\<close>

theorem explicit_label_overrides_for_direct_replies_witness:
  "threadOf anns_X [ov_a, ov_b] (messageKey ov_b) = Some ''X''
   \<and> threadOf anns_XY [ov_a, ov_b, ov_c] (messageKey ov_b) = Some ''Y''
   \<and> threadOf anns_XY [ov_a, ov_b, ov_c] (messageKey ov_c) = Some ''Y''"
proof -
  have d2: "distinct (map messageKey [ov_a, ov_b])"
    and d3: "distinct (map messageKey [ov_a, ov_b, ov_c])"
    and a2: "ov_a \<in> set [ov_a, ov_b]" and b2: "ov_b \<in> set [ov_a, ov_b]"
    and a3: "ov_a \<in> set [ov_a, ov_b, ov_c]" and b3: "ov_b \<in> set [ov_a, ov_b, ov_c]"
    and c3: "ov_c \<in> set [ov_a, ov_b, ov_c]"
    and aX: "annotatedThread anns_X ov_a = Some ''X''"
    and aXY: "annotatedThread anns_XY ov_a = Some ''X''"
    and X: "''X'' \<noteq> []" and Y: "''Y'' \<noteq> []"
    and rb: "reply_to_turn ov_b = Some (messageKey ov_a)"
    and rc: "reply_to_turn ov_c = Some (messageKey ov_b)"
    and bN: "annotatedThread anns_X ov_b = None"
    and bY: "annotatedThread anns_XY ov_b = Some ''Y''"
    and cN: "annotatedThread anns_XY ov_c = None"
    by code_simp+
  from explicit_label_overrides_for_direct_replies[OF d2 a2 b2 aX X rb] bN
  have one: "threadOf anns_X [ov_a, ov_b] (messageKey ov_b) = Some ''X''" by blast
  from explicit_label_overrides_for_direct_replies[OF d3 a3 b3 aXY X rb] bY Y c3 rc cN
  have two: "threadOf anns_XY [ov_a, ov_b, ov_c] (messageKey ov_b) = Some ''Y''
     \<and> threadOf anns_XY [ov_a, ov_b, ov_c] (messageKey ov_c) = Some ''Y''" by blast
  from one two show ?thesis by blast
qed

text \<open>
  C5 (as the specification states it) fails for a descendant that is not a direct reply:
  with d replying to c, c replying to b, and the list a, b, d, c, the turn d is visited
  before c has a thread and stays unthreaded, although b and c are in thread Y.
\<close>

theorem grandchild_listed_early_counterexample:
  "threadOf anns_XY [ov_a, ov_b, ov_d, ov_c] (messageKey ov_b) = Some ''Y''
   \<and> threadOf anns_XY [ov_a, ov_b, ov_d, ov_c] (messageKey ov_c) = Some ''Y''
   \<and> threadOf anns_XY [ov_a, ov_b, ov_d, ov_c] (messageKey ov_d) = None
   \<and> reply_to_turn ov_d = Some (messageKey ov_c) \<and> reply_to_turn ov_c = Some (messageKey ov_b)"
  by code_simp

section \<open>A parent that is not loaded yet\<close>

text \<open>
  C6 (as the code has it).  A turn without annotation of its own whose parent is not among
  the loaded turns has no thread.  When further turns are loaded (appended to the list, and
  the assembly run again over the whole list), among them the parent with an annotation of
  its own of a non-empty thread, the turn is in that thread.
\<close>

theorem dangling_parent_then_supplied:
  assumes dist: "distinct (map messageKey (xs @ later))"
    and m: "m \<in> set xs" and m_none: "annotatedThread anns m = None"
    and reply: "reply_to_turn m = Some (messageKey p)"
    and dangling: "messageKey p \<notin> messageKey ` set xs"
    and p: "p \<in> set later" and p_some: "annotatedThread anns p = Some t" and t: "t \<noteq> []"
  shows "threadOf anns xs (messageKey m) = None
       \<and> threadOf anns (xs @ later) (messageKey m) = Some t"
proof
  from dist have "distinct (map messageKey xs)" by simp
  then show "threadOf anns xs (messageKey m) = None"
    using m m_none reply dangling by (rule dangling_unresolved)
next
  from m p have "m \<in> set (xs @ later)" "p \<in> set (xs @ later)" by simp_all
  with dist show "threadOf anns (xs @ later) (messageKey m) = Some t"
    using reply m_none p_some t by (intro direct_reply_inherits[where p = p])
qed

text \<open>The theorem at the waiting turn w and its parent p, annotated X, loaded later.\<close>

theorem dangling_parent_then_supplied_witness:
  "distinct (map messageKey ([dg_w] @ [dg_p])) \<and> dg_w \<in> set [dg_w]
   \<and> annotatedThread anns_p dg_w = None \<and> reply_to_turn dg_w = Some (messageKey dg_p)
   \<and> messageKey dg_p \<notin> messageKey ` set [dg_w] \<and> dg_p \<in> set [dg_p]
   \<and> annotatedThread anns_p dg_p = Some ''X'' \<and> ''X'' \<noteq> []
   \<and> threadOf anns_p [dg_w] (messageKey dg_w) = None
   \<and> threadOf anns_p ([dg_w] @ [dg_p]) (messageKey dg_w) = Some ''X''"
proof -
  have d: "distinct (map messageKey ([dg_w] @ [dg_p]))" and m: "dg_w \<in> set [dg_w]"
    and n: "annotatedThread anns_p dg_w = None" and r: "reply_to_turn dg_w = Some (messageKey dg_p)"
    and p: "dg_p \<in> set [dg_p]"
    and s: "annotatedThread anns_p dg_p = Some ''X''" and t: "''X'' \<noteq> []"
    by code_simp+
  have g: "messageKey dg_p \<notin> messageKey ` set [dg_w]"
    by (simp add: dg_w_def dg_p_def scenario_defs)
  from dangling_parent_then_supplied[OF d m n r g p s t] d m n r g p s t show ?thesis by blast
qed

text \<open>
  C6 (as the specification states it) fails for the thread of a further ancestor: when the
  parent p, loaded later with its own parent g (annotated X), is in thread X only through
  g, the waiting turn w, listed before p, still has no thread.
\<close>

theorem parent_inherits_later_counterexample:
  "threadOf anns_g [dg_w] (messageKey dg_w) = None
   \<and> threadOf anns_g ([dg_w] @ [dg_g, dg_p]) (messageKey dg_p) = Some ''X''
   \<and> threadOf anns_g ([dg_w] @ [dg_g, dg_p]) (messageKey dg_w) = None
   \<and> reply_to_turn dg_w = Some (messageKey dg_p)"
  by code_simp

section \<open>Thread groups and unthreaded messages\<close>

text \<open>
  C8 (as the code has it).  For turns with pairwise distinct keys whose dates all parse:
  the unthreaded list holds the turns without thread, in list order; the thread groups
  have distinct thread ids; every turn with a thread is in the group of that thread; and
  every group is not empty, holds exactly the turns whose thread it is, is sorted by time
  ascending, and keeps turns of equal time in the order in which they were appended to it:
  first the turns with an annotation of that thread, in list order, then the turns that
  joined through their parent, in list order.  The result is a function of its arguments.
\<close>

theorem groups_sorted_by_time_stable:
  assumes dist: "distinct (map messageKey xs)"
    and parse: "\<forall>m\<in>set xs. messageTime getTime m \<noteq> None"
  shows "unthreadedMessages (organizeThreads getTime anns xs)
           = filter (\<lambda>m. threadOf anns xs (messageKey m) = None) xs
       \<and> distinct (map fst (threadGroups (organizeThreads getTime anns xs)))
       \<and> (\<forall>m\<in>set xs. \<forall>t. threadOf anns xs (messageKey m) = Some t \<longrightarrow>
              (\<exists>g. (t, g) \<in> set (threadGroups (organizeThreads getTime anns xs)) \<and> m \<in> set g))
       \<and> (\<forall>t g. (t, g) \<in> set (threadGroups (organizeThreads getTime anns xs)) \<longrightarrow>
              g \<noteq> []
              \<and> set g = {m \<in> set xs. threadOf anns xs (messageKey m) = Some t}
              \<and> sorted (map (parsedTime getTime) g)
              \<and> (\<forall>k. filter (\<lambda>m. parsedTime getTime m = k) g =
                       filter (\<lambda>m. parsedTime getTime m = k \<and> annotatedThread anns m = Some t) xs
                     @ filter (\<lambda>m. parsedTime getTime m = k \<and> annotatedThread anns m = None
                                    \<and> threadOf anns xs (messageKey m) = Some t) xs))"
proof (intro conjI ballI allI impI)
  show "unthreadedMessages (organizeThreads getTime anns xs)
           = filter (\<lambda>m. threadOf anns xs (messageKey m) = None) xs"
    by (rule unthreaded_eq)
  show "distinct (map fst (threadGroups (organizeThreads getTime anns xs)))"
    by (simp add: threadGroups_keys distinct_groups_resolveThreads)
next
  fix m t assume "m \<in> set xs" "threadOf anns xs (messageKey m) = Some t"
  with dist show "\<exists>g. (t, g) \<in> set (threadGroups (organizeThreads getTime anns xs)) \<and> m \<in> set g"
    by (rule threadGroups_has_thread)
next
  fix t g assume mem: "(t, g) \<in> set (threadGroups (organizeThreads getTime anns xs))"
  show "g \<noteq> []" using mem by (rule threadGroups_nonempty)
  show "set g = {m \<in> set xs. threadOf anns xs (messageKey m) = Some t}"
    using dist mem by (rule threadGroups_set)
  show "sorted (map (parsedTime getTime) g)"
    unfolding threadGroups_content[OF dist parse mem] by (rule sorted_sort_key)
  fix k
  show "filter (\<lambda>m. parsedTime getTime m = k) g =
          filter (\<lambda>m. parsedTime getTime m = k \<and> annotatedThread anns m = Some t) xs
        @ filter (\<lambda>m. parsedTime getTime m = k \<and> annotatedThread anns m = None
                       \<and> threadOf anns xs (messageKey m) = Some t) xs"
    unfolding threadGroups_content[OF dist parse mem] by (simp add: sort_key_stable conj_commute)
qed

text \<open>The theorem at a reply listed before its annotated parent, both of the same time.\<close>

theorem groups_sorted_by_time_stable_witness:
  "distinct (map messageKey [tie_r, tie_q])
   \<and> messageTime scenarioTime tie_r \<noteq> None \<and> messageTime scenarioTime tie_q \<noteq> None
   \<and> threadOf anns_tie [tie_r, tie_q] (messageKey tie_r) = Some ''A''
   \<and> (''A'', [tie_q, tie_r]) \<in> set (threadGroups (organizeThreads scenarioTime anns_tie [tie_r, tie_q]))
   \<and> sorted (map (parsedTime scenarioTime) [tie_q, tie_r])
   \<and> set [tie_q, tie_r] = {m \<in> set [tie_r, tie_q]. threadOf anns_tie [tie_r, tie_q] (messageKey m) = Some ''A''}
   \<and> unthreadedMessages (organizeThreads scenarioTime anns_tie [tie_r, tie_q])
       = filter (\<lambda>m. threadOf anns_tie [tie_r, tie_q] (messageKey m) = None) [tie_r, tie_q]"
proof -
  have d: "distinct (map messageKey [tie_r, tie_q])"
    and pr: "messageTime scenarioTime tie_r \<noteq> None" and pq: "messageTime scenarioTime tie_q \<noteq> None"
    and th: "threadOf anns_tie [tie_r, tie_q] (messageKey tie_r) = Some ''A''"
    and m: "(''A'', [tie_q, tie_r]) \<in> set (threadGroups (organizeThreads scenarioTime anns_tie [tie_r, tie_q]))"
    by code_simp+
  from pr pq have p: "\<forall>m\<in>set [tie_r, tie_q]. messageTime scenarioTime m \<noteq> None" by simp
  from groups_sorted_by_time_stable[OF d p, of anns_tie] d pr pq th m show ?thesis by blast
qed

text \<open>
  C8 (as the specification states it) fails on the tie-break: the reply r is listed
  (ingested) before its parent q, both have the same time, and the group holds q before r.
\<close>

theorem tie_not_in_ingestion_order_counterexample:
  "organizeThreads scenarioTime anns_tie [tie_r, tie_q]
     = \<lparr> threadGroups = [(''A'', [tie_q, tie_r])], unthreadedMessages = [] \<rparr>
   \<and> messageTime scenarioTime tie_r = Some 1704067205000
   \<and> messageTime scenarioTime tie_q = Some 1704067205000"
  by code_simp

text \<open>
  C9 (as the code has it).  For turns with pairwise distinct keys, the thread groups have
  distinct thread ids, a listed turn is in the unthreaded list exactly when it is in no
  group, no turn is in two groups, and every group holds listed turns only, each once.
\<close>

theorem groups_and_unthreaded_partition:
  assumes dist: "distinct (map messageKey xs)"
  shows "distinct (map fst (threadGroups (organizeThreads getTime anns xs)))
       \<and> (\<forall>m\<in>set xs.
             (m \<in> set (unthreadedMessages (organizeThreads getTime anns xs)))
               = (\<not> (\<exists>t g. (t, g) \<in> set (threadGroups (organizeThreads getTime anns xs)) \<and> m \<in> set g)))
       \<and> (\<forall>m t g t' g'. (t, g) \<in> set (threadGroups (organizeThreads getTime anns xs))
             \<and> (t', g') \<in> set (threadGroups (organizeThreads getTime anns xs))
             \<and> m \<in> set g \<and> m \<in> set g' \<longrightarrow> t = t' \<and> g = g')
       \<and> (\<forall>t g. (t, g) \<in> set (threadGroups (organizeThreads getTime anns xs))
             \<longrightarrow> set g \<subseteq> set xs \<and> distinct g)
       \<and> set (unthreadedMessages (organizeThreads getTime anns xs)) \<subseteq> set xs"
proof (intro conjI ballI allI impI)
  let ?R = "organizeThreads getTime anns xs"
  show dk: "distinct (map fst (threadGroups ?R))"
    by (simp add: threadGroups_keys distinct_groups_resolveThreads)
  show "set (unthreadedMessages ?R) \<subseteq> set xs" by (auto simp: unthreaded_eq)
  {
    fix m assume m: "m \<in> set xs"
    show "(m \<in> set (unthreadedMessages ?R)) = (\<not> (\<exists>t g. (t, g) \<in> set (threadGroups ?R) \<and> m \<in> set g))"
    proof (cases "threadOf anns xs (messageKey m)")
      case None
      have "\<not> (\<exists>t g. (t, g) \<in> set (threadGroups ?R) \<and> m \<in> set g)"
      proof
        assume "\<exists>t g. (t, g) \<in> set (threadGroups ?R) \<and> m \<in> set g"
        then obtain t g where "(t, g) \<in> set (threadGroups ?R)" "m \<in> set g" by blast
        with threadGroups_set[OF dist] have "threadOf anns xs (messageKey m) = Some t" by blast
        with None show False by simp
      qed
      with None m show ?thesis by (simp add: unthreaded_eq)
    next
      case (Some t)
      with threadGroups_has_thread[OF dist m] have "\<exists>t g. (t, g) \<in> set (threadGroups ?R) \<and> m \<in> set g"
        by blast
      with Some show ?thesis by (simp add: unthreaded_eq)
    qed
  }
  {
    fix m t g t' g'
    assume h: "(t, g) \<in> set (threadGroups ?R) \<and> (t', g') \<in> set (threadGroups ?R) \<and> m \<in> set g \<and> m \<in> set g'"
    with threadGroups_set[OF dist] have "threadOf anns xs (messageKey m) = Some t"
      "threadOf anns xs (messageKey m) = Some t'" by blast+
    then show tt: "t = t'" by simp
    from h have "map_of (threadGroups ?R) t = Some g" "map_of (threadGroups ?R) t' = Some g'"
      using dk by simp_all
    with tt show "g = g'" by simp
  }
  {
    fix t g assume mem: "(t, g) \<in> set (threadGroups ?R)"
    show "set g \<subseteq> set xs" using threadGroups_set[OF dist mem] by auto
    from dist have dx: "distinct xs" by (rule distinct_map[THEN iffD1, THEN conjunct1])
    show "distinct g"
      unfolding threadGroups_presort[OF dist mem] distinct_arraySort using dx by auto
  }
qed

text \<open>The theorem at the chain listed as t3, t2, t1.\<close>

theorem groups_and_unthreaded_partition_witness:
  "distinct (map messageKey [sc_t3, sc_t2, sc_t1])
   \<and> organizeThreads scenarioTime anns_A [sc_t3, sc_t2, sc_t1]
       = \<lparr> threadGroups = [(''A'', [sc_t1, sc_t2])], unthreadedMessages = [sc_t3] \<rparr>
   \<and> distinct (map fst (threadGroups (organizeThreads scenarioTime anns_A [sc_t3, sc_t2, sc_t1])))
   \<and> set (unthreadedMessages (organizeThreads scenarioTime anns_A [sc_t3, sc_t2, sc_t1]))
        \<subseteq> set [sc_t3, sc_t2, sc_t1]"
proof -
  have d: "distinct (map messageKey [sc_t3, sc_t2, sc_t1])"
    and v: "organizeThreads scenarioTime anns_A [sc_t3, sc_t2, sc_t1]
       = \<lparr> threadGroups = [(''A'', [sc_t1, sc_t2])], unthreadedMessages = [sc_t3] \<rparr>"
    by code_simp+
  from groups_and_unthreaded_partition[OF d, of scenarioTime anns_A] d v show ?thesis by blast
qed

text \<open>
  C9 (as stated for all loaded messages) fails when two messages share a turn id: the
  second is annotated (by its id) and enters group A, which writes the shared key into
  the thread map; the first is then neither in a group nor in the unthreaded list.
\<close>

theorem message_lost_counterexample:
  "organizeThreads scenarioTime anns_by_id [same_1, same_2]
     = \<lparr> threadGroups = [(''A'', [same_2])], unthreadedMessages = [] \<rparr>
   \<and> same_1 \<noteq> same_2"
  by code_simp

section \<open>An import whose mapping names no content column\<close>


end
